theory Spec2Isabelle
  imports Main
begin

section \<open>Data model\<close>

text \<open>
  The presence server of \<^verbatim>\<open>online-and-offline-indicator/src/index.ts\<close>.

  A WebSocket is a mutable object that the registry array, the timers and the handler
  closures all reach by reference. The model therefore keeps every socket object in a
  store (\<open>heap\<close>, indexed by reference) and the registry \<open>userSocket\<close> as the array of
  references, in the array's order. The array is declared \<^verbatim>\<open>ExtWebSocket[]\<close> and is changed
  by \<^verbatim>\<open>push\<close> and \<^verbatim>\<open>splice\<close> only, so every slot holds a socket: the tests \<^verbatim>\<open>!ws\<close> and
  \<^verbatim>\<open>if (existingSocket)\<close> of the source always go the same way and have no branch in the
  model.

  The fields \<open>userId\<close>, \<open>isAlive\<close> are those of \<^verbatim>\<open>ExtWebSocket\<close> (both optional in
  the source: \<open>None\<close> is \<^verbatim>\<open>undefined\<close>); \<open>readyState\<close> is the transport's state. The
  remaining fields record what the server did to the transport, so that it can be
  observed: the number of \<^verbatim>\<open>ping()\<close> and \<^verbatim>\<open>terminate()\<close> calls and the messages that
  \<^verbatim>\<open>send()\<close> accepted. \<open>sendRaises\<close> is set by the environment: whether \<^verbatim>\<open>send()\<close> on
  this transport throws.
\<close>

datatype ready_state = CONNECTING | OPEN | CLOSING | CLOSED

datatype json =
    JString string
  | JBool bool
  | JArray "json list"
  | JObject "(string \<times> json) list"

record ExtWebSocket =
  userId :: "string option"
  isAlive :: "bool option"
  readyState :: ready_state
  sendRaises :: bool
  pings :: nat
  terminations :: nat
  sent :: "json list"

text \<open>
  A document of the \<^verbatim>\<open>User\<close> collection. \<open>u_id\<close> is the document's \<^verbatim>\<open>_id\<close>, as the string
  \<^verbatim>\<open>_id.toString()\<close>; \<open>username\<close> and \<open>email\<close> are optional in the schema; the dates are
  milliseconds since the epoch.
\<close>

record User =
  u_id :: string
  username :: "string option"
  email :: "string option"
  lastLogin :: int
  createdAt :: int

text \<open>
  The server's state: the socket store, the registry, the directory (the \<^verbatim>\<open>User\<close>
  collection, with \<open>dbUp\<close> telling whether its operations succeed or reject), the
  invocations of \<^verbatim>\<open>broadcastUserStatus\<close> that are suspended at their \<^verbatim>\<open>await\<close> (each with
  the \<^verbatim>\<open>onlineUserIds\<close> it computed before suspending), the log of the identities passed
  to \<^verbatim>\<open>updateUserLastLogin\<close>, and the runs of \<^verbatim>\<open>deleteInactiveUsers\<close> that are suspended at
  one of their two \<^verbatim>\<open>await\<close>s, each with the cutoff date it computed at its start.
\<close>

datatype reconcile = AwaitFind int | AwaitDeleteMany int

record server =
  heap :: "ExtWebSocket list"
  userSocket :: "nat list"
  users :: "User list"
  dbUp :: bool
  pending :: "string list list"
  touches :: "string list"
  reconciling :: "reconcile list"

section \<open>The array and string primitives the code uses\<close>

text \<open>\<^verbatim>\<open>Array.prototype.findIndex\<close>: the first index whose element satisfies the
  predicate, \<open>-1\<close> when there is none.\<close>

fun findIndex_from :: "nat \<Rightarrow> ('a \<Rightarrow> bool) \<Rightarrow> 'a list \<Rightarrow> int" where
  "findIndex_from k p [] = - 1"
| "findIndex_from k p (x # xs) = (if p x then int k else findIndex_from (Suc k) p xs)"

definition findIndex :: "('a \<Rightarrow> bool) \<Rightarrow> 'a list \<Rightarrow> int" where
  "findIndex p xs = findIndex_from 0 p xs"

text \<open>\<^verbatim>\<open>xs.splice(start, 1)\<close>: a negative start counts from the end, the start is
  clamped to the array, and at most one element is removed.\<close>

definition splice :: "int \<Rightarrow> 'a list \<Rightarrow> 'a list" where
  "splice start xs =
     (let len = int (length xs);
          actualStart = (if start < 0 then max (len + start) 0 else min start len)
      in take (nat actualStart) xs @ drop (Suc (nat actualStart)) xs)"

text \<open>\<^verbatim>\<open>String.prototype.split\<close> with a string separator.\<close>

function split_from :: "string \<Rightarrow> string \<Rightarrow> string \<Rightarrow> string list" where
  "split_from sep acc s =
     (if s = [] then [rev acc]
      else if sep \<noteq> [] \<and> take (length sep) s = sep
        then rev acc # split_from sep [] (drop (length sep) s)
      else split_from sep (hd s # acc) (tl s))"
  by pat_completeness auto
termination
  by (relation "measure (\<lambda>(sep, acc, s). length s)") (auto simp: neq_Nil_conv)

declare split_from.simps [simp del]

definition split :: "string \<Rightarrow> string \<Rightarrow> string list" where
  "split s sep = (if sep = [] then map (\<lambda>c. [c]) s else split_from sep [] s)"

text \<open>\<^verbatim>\<open>req.url?.split("?userId=")[1]\<close>: \<^verbatim>\<open>undefined\<close> when the URL is missing or has no
  second piece.\<close>

definition url_userId :: "string option \<Rightarrow> string option" where
  "url_userId url =
     (case url of
        None \<Rightarrow> None
      | Some u \<Rightarrow>
          (let parts = split u ''?userId=''
           in if 1 < length parts then Some (parts ! 1) else None))"

text \<open>Truthiness of an optional string (\<^verbatim>\<open>!userId\<close>, \<^verbatim>\<open>filter(Boolean)\<close>): \<^verbatim>\<open>undefined\<close>
  and the empty string are falsy.\<close>

fun Boolean :: "string option \<Rightarrow> bool" where
  "Boolean None = False"
| "Boolean (Some s) = (s \<noteq> [])"

section \<open>The transport (the \<^verbatim>\<open>ws\<close> library, as the server uses it)\<close>

text \<open>
  A socket handed to the \<^verbatim>\<open>connection\<close> handler is a new open object without
  \<open>userId\<close> and \<open>isAlive\<close>. \<^verbatim>\<open>terminate()\<close> destroys the connection at once: the state
  leaves \<open>OPEN\<close> immediately, and the \<^verbatim>\<open>close\<close> event is delivered later.
\<close>

definition new_socket :: ExtWebSocket where
  "new_socket =
     \<lparr>userId = None, isAlive = None, readyState = OPEN, sendRaises = False,
      pings = 0, terminations = 0, sent = []\<rparr>"

definition terminate :: "ExtWebSocket \<Rightarrow> ExtWebSocket" where
  "terminate ws =
     ws\<lparr>readyState := (if readyState ws = CLOSED then CLOSED else CLOSING),
        terminations := Suc (terminations ws)\<rparr>"

definition ping :: "ExtWebSocket \<Rightarrow> ExtWebSocket" where
  "ping ws = ws\<lparr>pings := Suc (pings ws)\<rparr>"

definition mod_socket :: "nat \<Rightarrow> (ExtWebSocket \<Rightarrow> ExtWebSocket) \<Rightarrow> server \<Rightarrow> server" where
  "mod_socket ws f st = st\<lparr>heap := (heap st)[ws := f (heap st ! ws)]\<rparr>"

section \<open>The broadcaster\<close>

text \<open>
  \<^verbatim>\<open>broadcastUserStatus\<close> is asynchronous. A call runs up to its first \<^verbatim>\<open>await\<close>: it
  computes \<^verbatim>\<open>onlineUserIds\<close> from the registry as it is at the call and suspends on
  \<^verbatim>\<open>User.find\<close>. When the query returns, \<open>broadcast_resume\<close> runs the rest: it builds
  \<^verbatim>\<open>usersWithStatus\<close> and sends the message to every socket that the registry holds
  then. The whole body is inside one \<^verbatim>\<open>try\<close>: a rejected query or a \<^verbatim>\<open>send\<close> that throws
  ends the function in its \<^verbatim>\<open>catch\<close>.

  \<^verbatim>\<open>JSON.stringify\<close> is modelled by the JSON value of the string it returns: the keys in
  the object literal's order, a key whose value is \<^verbatim>\<open>undefined\<close> left out.
\<close>

definition onlineUserIds :: "server \<Rightarrow> string list" where
  "onlineUserIds st =
     map the (filter Boolean (map (\<lambda>ws. userId (heap st ! ws)) (userSocket st)))"

definition broadcastUserStatus :: "server \<Rightarrow> server" where
  "broadcastUserStatus st = st\<lparr>pending := pending st @ [onlineUserIds st]\<rparr>"

fun opt_field :: "string \<Rightarrow> string option \<Rightarrow> (string \<times> json) list" where
  "opt_field k None = []"
| "opt_field k (Some v) = [(k, JString v)]"

definition userWithStatus :: "string list \<Rightarrow> User \<Rightarrow> json" where
  "userWithStatus ids user =
     JObject ([(''_id'', JString (u_id user))]
              @ opt_field ''username'' (username user)
              @ opt_field ''email'' (email user)
              @ [(''online'', JBool (u_id user \<in> set ids))])"

definition status_message :: "string list \<Rightarrow> User list \<Rightarrow> json" where
  "status_message ids us =
     JObject [(''type'', JString ''user-status''),
              (''users'', JArray (map (userWithStatus ids) us))]"

text \<open>The \<^verbatim>\<open>for (const ws of userSocket) ws.send(...)\<close> loop: the first \<^verbatim>\<open>send\<close> that
  throws leaves the loop.\<close>

fun send_loop :: "json \<Rightarrow> nat list \<Rightarrow> ExtWebSocket list \<Rightarrow> ExtWebSocket list" where
  "send_loop msg [] h = h"
| "send_loop msg (ws # rest) h =
     (if sendRaises (h ! ws) then h
      else send_loop msg rest (h[ws := (h ! ws)\<lparr>sent := sent (h ! ws) @ [msg]\<rparr>]))"

definition broadcast_resume :: "string list \<Rightarrow> server \<Rightarrow> server" where
  "broadcast_resume ids st =
     (if \<not> dbUp st then st
      else st\<lparr>heap := send_loop (status_message ids (users st)) (userSocket st) (heap st)\<rparr>)"

section \<open>Admission and the per-socket handlers\<close>

text \<open>\<^verbatim>\<open>updateUserLastLogin\<close>: \<^verbatim>\<open>findByIdAndUpdate\<close> sets \<^verbatim>\<open>lastLogin\<close> of the document with
  that \<^verbatim>\<open>_id\<close>, if there is one; a failure is caught and logged.\<close>

definition updateUserLastLogin :: "string \<Rightarrow> int \<Rightarrow> server \<Rightarrow> server" where
  "updateUserLastLogin uid now st =
     (let st1 = st\<lparr>touches := touches st @ [uid]\<rparr>
      in if dbUp st
         then st1\<lparr>users := map (\<lambda>u. if u_id u = uid then u\<lparr>lastLogin := now\<rparr> else u) (users st)\<rparr>
         else st1)"

text \<open>The \<^verbatim>\<open>wss.on("connection")\<close> handler, called with a new socket \<open>ws\<close> and the
  request's URL, at time \<open>now\<close>.\<close>

definition wss_on_connection :: "string option \<Rightarrow> int \<Rightarrow> server \<Rightarrow> server" where
  "wss_on_connection url now st0 =
     (let ws = length (heap st0);
          st = st0\<lparr>heap := heap st0 @ [new_socket]\<rparr>;
          uid = url_userId url
      in if \<not> Boolean uid then st
         else
           let st1 = mod_socket ws (\<lambda>s. s\<lparr>userId := uid, isAlive := Some True\<rparr>) st;
               existingIndex = findIndex (\<lambda>u. userId (heap st1 ! u) = uid) (userSocket st1);
               st2 = (if existingIndex \<noteq> - 1
                      then let existingSocket = userSocket st1 ! nat existingIndex;
                               st' = mod_socket existingSocket terminate st1
                           in st'\<lparr>userSocket := splice existingIndex (userSocket st')\<rparr>
                      else st1);
               st3 = st2\<lparr>userSocket := userSocket st2 @ [ws]\<rparr>
           in broadcastUserStatus (updateUserLastLogin (the uid) now st3))"

text \<open>The \<^verbatim>\<open>close\<close> handler registered by an admitted socket; \<open>uid\<close> is the \<^verbatim>\<open>userId\<close> its
  closure captured. It is the value that the admission stored in the socket's \<open>userId\<close>
  field, which is never assigned again.\<close>

definition ws_on_close :: "string \<Rightarrow> server \<Rightarrow> server" where
  "ws_on_close uid st =
     (let index = findIndex (\<lambda>u. userId (heap st ! u) = Some uid) (userSocket st)
      in if index \<noteq> - 1
         then broadcastUserStatus (st\<lparr>userSocket := splice index (userSocket st)\<rparr>)
         else st)"

text \<open>The \<^verbatim>\<open>pong\<close> handler of socket \<open>ws\<close>.\<close>

definition ws_on_pong :: "nat \<Rightarrow> server \<Rightarrow> server" where
  "ws_on_pong ws st = mod_socket ws (\<lambda>s. s\<lparr>isAlive := Some True\<rparr>) st"

section \<open>The timers\<close>

text \<open>
  The heartbeat, every 30 s. \<open>heartbeat_visit\<close> is the callback's body for one socket.
  \<^verbatim>\<open>forEach\<close> reads the array's length once, then visits the indices below it in
  increasing order, each time reading the element that is at that index \<^emph>\<open>now\<close> and
  passing over an index that is no longer in the array: a \<^verbatim>\<open>splice\<close> in the callback
  moves the later elements down by one while the index still goes up.
\<close>

definition heartbeat_visit :: "nat \<Rightarrow> server \<Rightarrow> server" where
  "heartbeat_visit ws st =
     (if readyState (heap st ! ws) \<noteq> OPEN then st
      else if isAlive (heap st ! ws) \<noteq> Some True then
        let st1 = mod_socket ws terminate st;
            index = findIndex (\<lambda>u. userId (heap st1 ! u) = userId (heap st1 ! ws)) (userSocket st1)
        in if index \<noteq> - 1
           then broadcastUserStatus (st1\<lparr>userSocket := splice index (userSocket st1)\<rparr>)
           else st1
      else mod_socket ws (\<lambda>s. ping (s\<lparr>isAlive := Some False\<rparr>)) st)"

function forEach_from :: "nat \<Rightarrow> nat \<Rightarrow> (nat \<Rightarrow> server \<Rightarrow> server) \<Rightarrow> server \<Rightarrow> server" where
  "forEach_from k len f st =
     (if k < len
      then forEach_from (Suc k) len f
             (if k < length (userSocket st) then f (userSocket st ! k) st else st)
      else st)"
  by pat_completeness auto
termination
  by (relation "measure (\<lambda>(k, len, f, st). len - k)") auto

declare forEach_from.simps [simp del]

definition heartbeat :: "server \<Rightarrow> server" where
  "heartbeat st = forEach_from 0 (length (userSocket st)) heartbeat_visit st"

text \<open>
  The staleness sweep, every 60 s: the indices from the last to the first; an entry
  whose transport is not open is spliced out. \<open>sweep_from n\<close> is the loop with the
  indices below \<open>n\<close> still to visit.
\<close>

fun sweep_from :: "nat \<Rightarrow> server \<Rightarrow> server" where
  "sweep_from 0 st = st"
| "sweep_from (Suc i) st =
     sweep_from i
       (if readyState (heap st ! (userSocket st ! i)) \<noteq> OPEN
        then st\<lparr>userSocket := splice (int i) (userSocket st)\<rparr>
        else st)"

definition stale_sweep :: "server \<Rightarrow> server" where
  "stale_sweep st =
     (let initialCount = length (userSocket st);
          st1 = sweep_from initialCount st;
          removedCount = int initialCount - int (length (userSocket st1))
      in if removedCount > 0 then broadcastUserStatus st1 else st1)"

text \<open>
  \<^verbatim>\<open>deleteInactiveUsers\<close>, every 2 minutes, called at time \<open>now\<close>. The function is
  asynchronous and awaits twice, so a run is three steps of the event loop, and other
  callbacks may run between them:
  \<^item> the call computes the cutoff and suspends on \<^verbatim>\<open>User.find\<close>;
  \<^item> when \<^verbatim>\<open>find\<close> returns, \<open>deleteInactiveUsers_found\<close> tests \<^verbatim>\<open>inactiveUsers.length\<close> and,
    if some record was found, suspends on \<^verbatim>\<open>User.deleteMany\<close> with the same cutoff;
  \<^item> when \<^verbatim>\<open>deleteMany\<close> returns, \<open>deleteInactiveUsers_deleted\<close> calls
    \<^verbatim>\<open>broadcastUserStatus\<close>.
  Each directory call reads or writes the collection as it is when its continuation runs.
  A call that rejects ends the run in the \<^verbatim>\<open>catch\<close>.
\<close>

definition deleteInactiveUsers :: "int \<Rightarrow> server \<Rightarrow> server" where
  "deleteInactiveUsers now st =
     (let tenMinutesAgo = now - 2 * 60 * 1000
      in st\<lparr>reconciling := reconciling st @ [AwaitFind tenMinutesAgo]\<rparr>)"

definition deleteInactiveUsers_found :: "int \<Rightarrow> server \<Rightarrow> server" where
  "deleteInactiveUsers_found tenMinutesAgo st =
     (if \<not> dbUp st then st
      else
        let inactiveUsers = filter (\<lambda>u. lastLogin u < tenMinutesAgo) (users st)
        in if length inactiveUsers > 0
           then st\<lparr>reconciling := reconciling st @ [AwaitDeleteMany tenMinutesAgo]\<rparr>
           else st)"

definition deleteInactiveUsers_deleted :: "int \<Rightarrow> server \<Rightarrow> server" where
  "deleteInactiveUsers_deleted tenMinutesAgo st =
     (if \<not> dbUp st then st
      else broadcastUserStatus
             (st\<lparr>users := filter (\<lambda>u. \<not> lastLogin u < tenMinutesAgo) (users st)\<rparr>))"

section \<open>The serialized event loop\<close>

text \<open>
  Everything runs on one event loop, one callback at a time. The events are: a new
  connection; the transport's \<^verbatim>\<open>close\<close> and \<^verbatim>\<open>pong\<close> events of a socket (delivered to the
  handlers only if the socket was admitted and so registered them; \<^verbatim>\<open>close\<close> is
  delivered once); the three timers; the completion of the oldest suspended
  \<^verbatim>\<open>User.find\<close> of a broadcast; the completion of the directory call that the oldest
  suspended run of \<^verbatim>\<open>deleteInactiveUsers\<close> awaits; and changes of the environment: a transport that starts
  closing, a transport whose \<^verbatim>\<open>send\<close> starts or stops throwing, the directory becoming
  unreachable or reachable, and a write to the directory from outside the presence code
  (the \<^verbatim>\<open>/register\<close> endpoint or any other client of the database), which may leave any
  collection.
\<close>

datatype event =
    Connection "string option" int
  | Close nat
  | Pong nat
  | Heartbeat
  | StaleSweep
  | Reconcile int
  | ReconcilerReply
  | QueryDone
  | PeerClosing nat
  | SendFault nat bool
  | DbState bool
  | DirectoryWrite "User list"

fun step :: "event \<Rightarrow> server \<Rightarrow> server" where
  "step (Connection url now) st = wss_on_connection url now st"
| "step (Close ws) st =
     (if ws < length (heap st) \<and> readyState (heap st ! ws) \<noteq> CLOSED
      then let st1 = mod_socket ws (\<lambda>s. s\<lparr>readyState := CLOSED\<rparr>) st
           in (case userId (heap st1 ! ws) of
                 Some uid \<Rightarrow> ws_on_close uid st1
               | None \<Rightarrow> st1)
      else st)"
| "step (Pong ws) st =
     (if ws < length (heap st) \<and> readyState (heap st ! ws) = OPEN \<and> userId (heap st ! ws) \<noteq> None
      then ws_on_pong ws st else st)"
| "step Heartbeat st = heartbeat st"
| "step StaleSweep st = stale_sweep st"
| "step (Reconcile now) st = deleteInactiveUsers now st"
| "step ReconcilerReply st =
     (case reconciling st of
        [] \<Rightarrow> st
      | AwaitFind tenMinutesAgo # rest \<Rightarrow>
          deleteInactiveUsers_found tenMinutesAgo (st\<lparr>reconciling := rest\<rparr>)
      | AwaitDeleteMany tenMinutesAgo # rest \<Rightarrow>
          deleteInactiveUsers_deleted tenMinutesAgo (st\<lparr>reconciling := rest\<rparr>))"
| "step QueryDone st =
     (case pending st of
        [] \<Rightarrow> st
      | ids # rest \<Rightarrow> broadcast_resume ids (st\<lparr>pending := rest\<rparr>))"
| "step (PeerClosing ws) st =
     (if ws < length (heap st) \<and> readyState (heap st ! ws) = OPEN
      then mod_socket ws (\<lambda>s. s\<lparr>readyState := CLOSING\<rparr>) st else st)"
| "step (SendFault ws b) st =
     (if ws < length (heap st) then mod_socket ws (\<lambda>s. s\<lparr>sendRaises := b\<rparr>) st else st)"
| "step (DbState b) st = st\<lparr>dbUp := b\<rparr>"
| "step (DirectoryWrite us) st = st\<lparr>users := us\<rparr>"

fun run :: "event list \<Rightarrow> server \<Rightarrow> server" where
  "run [] st = st"
| "run (e # es) st = run es (step e st)"

text \<open>The server at start: no socket, an empty registry, some directory.\<close>

definition init :: "User list \<Rightarrow> server" where
  "init us =
     \<lparr>heap = [], userSocket = [], users = us, dbUp = True, pending = [], touches = [],
      reconciling = []\<rparr>"

section \<open>Notions used in the proofs\<close>

text \<open>Removing the first element that satisfies a predicate: what \<^verbatim>\<open>findIndex\<close>
  followed by \<^verbatim>\<open>splice(index, 1)\<close> does when an element is found.\<close>

fun del1 :: "('a \<Rightarrow> bool) \<Rightarrow> 'a list \<Rightarrow> 'a list" where
  "del1 p [] = []"
| "del1 p (x # xs) = (if p x then xs else x # del1 p xs)"

text \<open>The registry invariant: every entry refers to a socket of the store whose
  \<open>userId\<close> is a non-empty string, and no two entries have the same \<open>userId\<close>.\<close>

definition reg_ids :: "server \<Rightarrow> string option list" where
  "reg_ids st = map (\<lambda>ws. userId (heap st ! ws)) (userSocket st)"

definition registry_inv :: "server \<Rightarrow> bool" where
  "registry_inv st =
     (list_all (\<lambda>ws. ws < length (heap st) \<and> Boolean (userId (heap st ! ws))) (userSocket st)
      \<and> distinct (reg_ids st))"

definition wf_reg :: "nat \<Rightarrow> (nat \<Rightarrow> string option) \<Rightarrow> nat list \<Rightarrow> bool" where
  "wf_reg n f xs = (list_all (\<lambda>ws. ws < n \<and> Boolean (f ws)) xs \<and> distinct (map f xs))"

text \<open>States and inputs of the scenarios evaluated below.\<close>

definition id_u1 :: string where
  "id_u1 = ''65f000000000000000000001''"

definition id_u2 :: string where
  "id_u2 = ''65f000000000000000000002''"

definition id_u3 :: string where
  "id_u3 = ''65f000000000000000000003''"

definition url_u1 :: "string option" where
  "url_u1 = Some (''/?userId='' @ id_u1)"

definition url_u2 :: "string option" where
  "url_u2 = Some (''/?userId='' @ id_u2)"

definition url_u3 :: "string option" where
  "url_u3 = Some (''/?userId='' @ id_u3)"

definition st_u1 :: server where
  "st_u1 = run [Connection url_u1 0] (init [])"

definition dir_u1 :: "User list" where
  "dir_u1 = [\<lparr>u_id = id_u1, username = Some ''ann'', email = Some ''ann@example.org'',
              lastLogin = 0, createdAt = 0\<rparr>]"

definition st_reconnected :: server where
  "st_reconnected = run [Connection url_u1 0, QueryDone, Connection url_u1 1, QueryDone] (init dir_u1)"

definition st_two :: server where
  "st_two = run [Connection url_u1 0, Heartbeat, Connection url_u2 1] (init [])"

definition st_three_silent :: server where
  "st_three_silent =
     run [Connection url_u1 0, Connection url_u2 0, Connection url_u3 0,
          QueryDone, QueryDone, QueryDone, Heartbeat] (init [])"

definition st_closing :: server where
  "st_closing =
     run [Connection url_u1 0, Connection url_u2 0, Connection url_u3 0, Heartbeat, PeerClosing 1] (init [])"

definition st_probed :: server where
  "st_probed = run [Connection url_u1 0, Connection url_u2 0, QueryDone, QueryDone, Heartbeat] (init [])"

definition st_faulty :: server where
  "st_faulty =
     run [Connection url_u1 0, SendFault 0 True, Connection url_u2 0] (init dir_u1)"

definition st_faulty3 :: server where
  "st_faulty3 =
     run [Connection url_u1 0, Connection url_u2 0, SendFault 1 True, Connection url_u3 0,
          QueryDone, QueryDone] (init dir_u1)"



definition dir_nameless :: "User list" where
  "dir_nameless =
     [\<lparr>u_id = id_u1, username = None, email = Some ''ann@example.org'',
       lastLogin = 0, createdAt = 0\<rparr>]"

definition st_nameless :: server where
  "st_nameless = run [Connection url_u1 0] (init dir_nameless)"



section \<open>Facts about the array primitives\<close>

lemma findIndex_from_ge: "findIndex_from k p xs = - 1 \<or> int k \<le> findIndex_from k p xs"
proof (induction xs arbitrary: k)
  case Nil
  show ?case by simp
next
  case (Cons x xs)
  show ?case using Cons.IH [of "Suc k"] by auto
qed

lemma findIndex_from_shift:
  "findIndex_from k p xs = (if findIndex_from 0 p xs = - 1 then - 1 else int k + findIndex_from 0 p xs)"
proof (induction xs arbitrary: k)
  case Nil
  show ?case by simp
next
  case (Cons x xs)
  show ?case
    using Cons.IH [of "Suc k"] Cons.IH [of "Suc 0"] findIndex_from_ge [of 0 p xs] by auto
qed

lemma findIndex_Nil [simp]: "findIndex p [] = - 1"
  by (simp add: findIndex_def)

lemma findIndex_Cons:
  "findIndex p (x # xs) =
     (if p x then 0 else if findIndex p xs = - 1 then - 1 else 1 + findIndex p xs)"
  using findIndex_from_shift [of "Suc 0" p xs] by (simp add: findIndex_def)

lemma findIndex_ge: "findIndex p xs = - 1 \<or> 0 \<le> findIndex p xs"
  using findIndex_from_ge [of 0 p xs] by (simp add: findIndex_def)

lemma findIndex_bounds: "- 1 \<le> findIndex p xs \<and> findIndex p xs < int (length xs)"
  using findIndex_ge [of p] by (induction xs) (auto simp: findIndex_Cons)

lemma findIndex_none: "findIndex p xs = - 1 \<longleftrightarrow> (\<forall>x \<in> set xs. \<not> p x)"
proof (induction xs)
  case Nil
  show ?case by simp
next
  case (Cons x xs)
  show ?case using Cons.IH findIndex_ge [of p xs] by (auto simp: findIndex_Cons)
qed

lemma splice_nat: "splice (int i) xs = take i xs @ drop (Suc i) xs"
proof (cases "i \<le> length xs")
  case True
  then show ?thesis by (simp add: splice_def Let_def min_def)
next
  case False
  then show ?thesis by (simp add: splice_def Let_def min_def)
qed

lemma findIndex_nat: "findIndex p xs \<noteq> - 1 \<Longrightarrow> int (nat (findIndex p xs)) = findIndex p xs"
  using findIndex_ge [of p xs] by simp

lemma splice_findIndex:
  "findIndex p xs \<noteq> - 1 \<Longrightarrow> splice (findIndex p xs) xs = del1 p xs"
proof (induction xs)
  case Nil
  then show ?case by simp
next
  case (Cons x xs)
  show ?case
  proof (cases "p x")
    case True
    then show ?thesis by (simp add: findIndex_Cons splice_def)
  next
    case False
    with Cons.prems have ne: "findIndex p xs \<noteq> - 1" by (simp add: findIndex_Cons split: if_splits)
    have "splice (findIndex p (x # xs)) (x # xs) = splice (int (Suc (nat (findIndex p xs)))) (x # xs)"
      using False ne findIndex_ge [of p xs] by (simp add: findIndex_Cons nat_add_distrib)
    also have "\<dots> = x # splice (int (nat (findIndex p xs))) xs"
      by (simp only: splice_nat) simp
    also have "\<dots> = x # del1 p xs"
      using Cons.IH [OF ne] findIndex_nat [OF ne] by simp
    finally show ?thesis using False by simp
  qed
qed

lemma nth_findIndex:
  "findIndex p xs \<noteq> - 1 \<Longrightarrow> p (xs ! nat (findIndex p xs)) \<and> nat (findIndex p xs) < length xs"
proof (induction xs)
  case Nil
  then show ?case by simp
next
  case (Cons x xs)
  show ?case
  proof (cases "p x")
    case True
    then show ?thesis by (simp add: findIndex_Cons)
  next
    case False
    with Cons.prems have ne: "findIndex p xs \<noteq> - 1" by (simp add: findIndex_Cons split: if_splits)
    have "nat (findIndex p (x # xs)) = Suc (nat (findIndex p xs))"
      using False ne findIndex_ge [of p xs] by (simp add: findIndex_Cons nat_add_distrib)
    then show ?thesis using Cons.IH [OF ne] by simp
  qed
qed

lemma set_del1: "set (del1 p xs) \<subseteq> set xs"
  by (induction xs) auto

lemma del1_none: "\<forall>x \<in> set xs. \<not> p x \<Longrightarrow> del1 p xs = xs"
  by (induction xs) auto

lemma length_del1: "\<exists>x \<in> set xs. p x \<Longrightarrow> Suc (length (del1 p xs)) = length xs"
  by (induction xs) auto

lemma distinct_map_del1: "distinct (map f xs) \<Longrightarrow> distinct (map f (del1 p xs))"
proof (induction xs)
  case Nil
  then show ?case by simp
next
  case (Cons x xs)
  then show ?case using set_del1 [of p xs] by auto
qed

lemma del1_key_gone:
  "distinct (map f xs) \<Longrightarrow> x \<in> set (del1 (\<lambda>u. f u = v) xs) \<Longrightarrow> f x \<noteq> v"
proof (induction xs)
  case Nil
  then show ?case by simp
next
  case (Cons y ys)
  show ?case
  proof (cases "f y = v")
    case True
    with Cons.prems show ?thesis by (auto simp: image_iff)
  next
    case False
    with Cons show ?thesis by auto
  qed
qed

lemma del1_nth:
  "distinct (map f xs) \<Longrightarrow> k < length xs \<Longrightarrow>
   del1 (\<lambda>u. f u = f (xs ! k)) xs = take k xs @ drop (Suc k) xs"
proof (induction xs arbitrary: k)
  case Nil
  then show ?case by simp
next
  case (Cons x xs)
  show ?case
  proof (cases k)
    case 0
    then show ?thesis by simp
  next
    case (Suc j)
    with Cons.prems have "f x \<noteq> f (xs ! j)" by auto
    with Suc Cons show ?thesis by simp
  qed
qed


lemma del1_cong: "(\<And>x. x \<in> set xs \<Longrightarrow> p x = q x) \<Longrightarrow> del1 p xs = del1 q xs"
  by (induction xs) auto

lemma findIndex_cong: "(\<And>x. x \<in> set xs \<Longrightarrow> p x = q x) \<Longrightarrow> findIndex p xs = findIndex q xs"
  by (induction xs) (auto simp: findIndex_Cons)

lemma registry_inv_wf:
  "registry_inv st = wf_reg (length (heap st)) (\<lambda>ws. userId (heap st ! ws)) (userSocket st)"
  by (simp add: registry_inv_def wf_reg_def reg_ids_def)

lemma wf_reg_cong:
  assumes "\<And>ws. ws < n \<Longrightarrow> f ws = g ws" and "wf_reg n f xs"
  shows "wf_reg n g xs"
proof -
  from assms(2) have lt: "\<forall>ws \<in> set xs. ws < n" by (auto simp: wf_reg_def list_all_iff)
  with assms(1) have "map f xs = map g xs" by simp
  with assms(2) lt assms(1) show ?thesis by (auto simp: wf_reg_def list_all_iff)
qed

lemma wf_reg_mono: "wf_reg n f xs \<Longrightarrow> n \<le> m \<Longrightarrow> wf_reg m f xs"
  by (auto simp: wf_reg_def list_all_iff)

lemma wf_reg_del1: "wf_reg n f xs \<Longrightarrow> wf_reg n f (del1 p xs)"
  using set_del1 [of p xs] by (auto simp: wf_reg_def list_all_iff distinct_map_del1)

lemma wf_reg_remove_nth: "wf_reg n f xs \<Longrightarrow> wf_reg n f (take k xs @ drop (Suc k) xs)"
proof -
  assume a: "wf_reg n f xs"
  have "set (take k xs @ drop (Suc k) xs) \<subseteq> set xs"
    using set_take_subset [of k xs] set_drop_subset [of "Suc k" xs] by auto
  moreover have "distinct (map f (take k xs @ drop (Suc k) xs))"
  proof -
    from a have "distinct (map f xs)" by (simp add: wf_reg_def)
    then have "distinct (take k (map f xs) @ drop (Suc k) (map f xs))"
      using set_take_disj_set_drop_if_distinct [of "map f xs" k "Suc k"] by simp
    then show ?thesis by (simp add: take_map drop_map)
  qed
  ultimately show ?thesis using a by (auto simp: wf_reg_def list_all_iff)
qed

lemma wf_reg_snoc:
  "wf_reg n f xs \<Longrightarrow> Boolean (f n) \<Longrightarrow> \<forall>x \<in> set xs. f x \<noteq> f n \<Longrightarrow> wf_reg (Suc n) f (xs @ [n])"
  by (auto simp: wf_reg_def list_all_iff)

subsection \<open>Projections of the state after the basic operations\<close>

lemma mod_socket_proj [simp]:
  "userSocket (mod_socket ws f st) = userSocket st"
  "users (mod_socket ws f st) = users st"
  "dbUp (mod_socket ws f st) = dbUp st"
  "pending (mod_socket ws f st) = pending st"
  "touches (mod_socket ws f st) = touches st"
  "length (heap (mod_socket ws f st)) = length (heap st)"
  by (simp_all add: mod_socket_def)

lemma heap_mod_socket:
  "heap (mod_socket ws f st) ! x =
     (if x = ws \<and> ws < length (heap st) then f (heap st ! ws) else heap st ! x)"
  by (cases "ws < length (heap st)") (auto simp: mod_socket_def list_update_beyond)

lemma broadcast_proj [simp]:
  "userSocket (broadcastUserStatus st) = userSocket st"
  "users (broadcastUserStatus st) = users st"
  "dbUp (broadcastUserStatus st) = dbUp st"
  "heap (broadcastUserStatus st) = heap st"
  "touches (broadcastUserStatus st) = touches st"
  "pending (broadcastUserStatus st) = pending st @ [onlineUserIds st]"
  by (simp_all add: broadcastUserStatus_def)

lemma touch_proj [simp]:
  "userSocket (updateUserLastLogin uid now st) = userSocket st"
  "dbUp (updateUserLastLogin uid now st) = dbUp st"
  "heap (updateUserLastLogin uid now st) = heap st"
  "pending (updateUserLastLogin uid now st) = pending st"
  "touches (updateUserLastLogin uid now st) = touches st @ [uid]"
  by (simp_all add: updateUserLastLogin_def Let_def)

lemma onlineUserIds_cong:
  "userSocket st' = userSocket st \<Longrightarrow> heap st' = heap st \<Longrightarrow> onlineUserIds st' = onlineUserIds st"
  by (simp add: onlineUserIds_def)

lemma terminate_proj [simp]:
  "userId (terminate s) = userId s"
  "isAlive (terminate s) = isAlive s"
  "sendRaises (terminate s) = sendRaises s"
  "pings (terminate s) = pings s"
  "sent (terminate s) = sent s"
  "terminations (terminate s) = Suc (terminations s)"
  "readyState (terminate s) \<noteq> OPEN"
  by (simp_all add: terminate_def)

lemma ping_proj [simp]:
  "userId (ping s) = userId s"
  "isAlive (ping s) = isAlive s"
  "sendRaises (ping s) = sendRaises s"
  "pings (ping s) = Suc (pings s)"
  "sent (ping s) = sent s"
  "terminations (ping s) = terminations s"
  "readyState (ping s) = readyState s"
  by (simp_all add: ping_def)

subsection \<open>The handlers in terms of \<open>del1\<close>\<close>

lemma ws_on_close_eq:
  "ws_on_close uid st =
     (if \<exists>u \<in> set (userSocket st). userId (heap st ! u) = Some uid
      then broadcastUserStatus
             (st\<lparr>userSocket := del1 (\<lambda>u. userId (heap st ! u) = Some uid) (userSocket st)\<rparr>)
      else st)"
  using findIndex_none [of "\<lambda>u. userId (heap st ! u) = Some uid" "userSocket st"]
  by (auto simp: ws_on_close_def Let_def splice_findIndex)

lemma heartbeat_visit_eq:
  "heartbeat_visit ws st =
     (if readyState (heap st ! ws) \<noteq> OPEN then st
      else if isAlive (heap st ! ws) \<noteq> Some True then
        let st1 = mod_socket ws terminate st
        in if \<exists>u \<in> set (userSocket st). userId (heap st ! u) = userId (heap st ! ws)
           then broadcastUserStatus
                  (st1\<lparr>userSocket := del1 (\<lambda>u. userId (heap st ! u) = userId (heap st ! ws)) (userSocket st)\<rparr>)
           else st1
      else mod_socket ws (\<lambda>s. ping (s\<lparr>isAlive := Some False\<rparr>)) st)"
proof -
  let ?st1 = "mod_socket ws terminate st"
  have p: "(\<lambda>u. userId (heap ?st1 ! u) = userId (heap ?st1 ! ws))
            = (\<lambda>u. userId (heap st ! u) = userId (heap st ! ws))"
    by (auto simp: heap_mod_socket fun_eq_iff)
  show ?thesis
    using findIndex_none [of "\<lambda>u. userId (heap st ! u) = userId (heap st ! ws)" "userSocket st"]
    by (auto simp: heartbeat_visit_def Let_def p splice_findIndex)
qed


lemma connection_reject:
  "\<not> Boolean (url_userId url) \<Longrightarrow>
   wss_on_connection url now st0 = st0\<lparr>heap := heap st0 @ [new_socket]\<rparr>"
  by (simp add: wss_on_connection_def Let_def)

lemma connection_admit:
  assumes refs: "\<forall>ws \<in> set (userSocket st0). ws < length (heap st0)"
    and ok: "Boolean (url_userId url)"
  shows "wss_on_connection url now st0 =
     (let uid = url_userId url;
          p = (\<lambda>u. userId (heap st0 ! u) = uid);
          h1 = heap st0 @ [new_socket\<lparr>userId := uid, isAlive := Some True\<rparr>];
          old = userSocket st0 ! nat (findIndex p (userSocket st0));
          h2 = (if \<exists>u \<in> set (userSocket st0). p u then h1[old := terminate (heap st0 ! old)] else h1)
      in broadcastUserStatus
           (updateUserLastLogin (the uid) now
              (st0\<lparr>heap := h2, userSocket := del1 p (userSocket st0) @ [length (heap st0)]\<rparr>)))"
proof -
  let ?n = "length (heap st0)"
  let ?uid = "url_userId url"
  let ?h1 = "heap st0 @ [new_socket\<lparr>userId := ?uid, isAlive := Some True\<rparr>]"
  let ?p = "\<lambda>u. userId (heap st0 ! u) = ?uid"
  let ?p1 = "\<lambda>u. userId (?h1 ! u) = ?uid"
  let ?xs = "userSocket st0"
  have pp: "\<And>x. x \<in> set ?xs \<Longrightarrow> ?p1 x = ?p x"
    using refs by (simp add: nth_append)
  have fi: "findIndex ?p1 ?xs = findIndex ?p ?xs"
    using findIndex_cong [of ?xs ?p1 ?p] pp by simp
  have unf: "wss_on_connection url now st0 =
      (let st1 = st0\<lparr>heap := ?h1\<rparr>;
           existingIndex = findIndex ?p1 ?xs;
           st2 = (if existingIndex \<noteq> - 1
                  then let existingSocket = ?xs ! nat existingIndex
                       in st1\<lparr>heap := ?h1[existingSocket := terminate (?h1 ! existingSocket)],
                              userSocket := splice existingIndex ?xs\<rparr>
                  else st1)
       in broadcastUserStatus
            (updateUserLastLogin (the ?uid) now (st2\<lparr>userSocket := userSocket st2 @ [?n]\<rparr>)))"
    using ok by (simp add: wss_on_connection_def Let_def mod_socket_def del: Boolean.simps)
  show ?thesis
  proof (cases "\<exists>u \<in> set ?xs. ?p u")
    case False
    then have none: "findIndex ?p ?xs = - 1" by (simp add: findIndex_none)
    from False have "del1 ?p ?xs = ?xs" by (simp add: del1_none)
    with False none show ?thesis
      unfolding unf fi by (simp add: Let_def)
  next
    case True
    then have ne: "findIndex ?p ?xs \<noteq> - 1" by (simp add: findIndex_none)
    let ?old = "?xs ! nat (findIndex ?p ?xs)"
    from nth_findIndex [OF ne] have "?old \<in> set ?xs" by simp
    with refs have lt: "?old < ?n" by simp
    from True ne lt show ?thesis
      unfolding unf fi by (simp add: Let_def splice_findIndex nth_append)
  qed
qed


subsection \<open>The registry invariant is kept by every callback\<close>

lemma registry_inv_cong:
  "userSocket st' = userSocket st \<Longrightarrow> length (heap st') = length (heap st) \<Longrightarrow>
   (\<And>x. x < length (heap st) \<Longrightarrow> userId (heap st' ! x) = userId (heap st ! x)) \<Longrightarrow>
   registry_inv st \<Longrightarrow> registry_inv st'"
  unfolding registry_inv_wf
  using wf_reg_cong [of "length (heap st)" "\<lambda>ws. userId (heap st ! ws)" "\<lambda>ws. userId (heap st' ! ws)" "userSocket st"]
  by simp

lemma registry_inv_refs: "registry_inv st \<Longrightarrow> \<forall>ws \<in> set (userSocket st). ws < length (heap st)"
  by (simp add: registry_inv_def list_all_iff)

lemma registry_inv_distinct:
  "registry_inv st \<Longrightarrow> distinct (map (\<lambda>ws. userId (heap st ! ws)) (userSocket st))"
  by (simp add: registry_inv_def reg_ids_def)

lemma inv_mod_socket:
  "(\<And>s. userId (f s) = userId s) \<Longrightarrow> registry_inv st \<Longrightarrow> registry_inv (mod_socket ws f st)"
  by (rule registry_inv_cong [of _ st]) (simp_all add: heap_mod_socket)

lemma inv_broadcast: "registry_inv st \<Longrightarrow> registry_inv (broadcastUserStatus st)"
  by (rule registry_inv_cong [of _ st]) simp_all

lemma inv_touch: "registry_inv st \<Longrightarrow> registry_inv (updateUserLastLogin uid now st)"
  by (rule registry_inv_cong [of _ st]) simp_all

lemma inv_del1: "registry_inv st \<Longrightarrow> registry_inv (st\<lparr>userSocket := del1 p (userSocket st)\<rparr>)"
  unfolding registry_inv_wf by (simp add: wf_reg_del1)

lemma inv_remove_nth:
  "registry_inv st \<Longrightarrow> registry_inv (st\<lparr>userSocket := take k (userSocket st) @ drop (Suc k) (userSocket st)\<rparr>)"
  unfolding registry_inv_wf by (simp add: wf_reg_remove_nth)

lemma inv_close: "registry_inv st \<Longrightarrow> registry_inv (ws_on_close uid st)"
  by (simp add: ws_on_close_eq inv_broadcast inv_del1)

lemma inv_connection:
  assumes inv: "registry_inv st0"
  shows "registry_inv (wss_on_connection url now st0)"
proof (cases "Boolean (url_userId url)")
  case False
  have w0: "wf_reg (length (heap st0)) (\<lambda>ws. userId (heap st0 ! ws)) (userSocket st0)"
    using inv by (simp add: registry_inv_wf)
  have "wf_reg (length (heap st0)) (\<lambda>ws. userId ((heap st0 @ [new_socket]) ! ws)) (userSocket st0)"
    by (rule wf_reg_cong [OF _ w0]) (simp add: nth_append)
  then have "registry_inv (st0\<lparr>heap := heap st0 @ [new_socket]\<rparr>)"
    unfolding registry_inv_wf by (simp add: wf_reg_mono)
  with False show ?thesis by (simp add: connection_reject)
next
  case True
  let ?n = "length (heap st0)"
  let ?uid = "url_userId url"
  let ?p = "\<lambda>u. userId (heap st0 ! u) = ?uid"
  let ?f = "\<lambda>ws. userId (heap st0 ! ws)"
  let ?st' = "wss_on_connection url now st0"
  have refs: "\<forall>ws \<in> set (userSocket st0). ws < ?n" using inv by (rule registry_inv_refs)
  note eq = connection_admit [OF refs True, of now]
  have us: "userSocket ?st' = del1 ?p (userSocket st0) @ [?n]"
    by (simp add: eq Let_def)
  have len: "length (heap ?st') = Suc ?n"
    by (simp add: eq Let_def)
  have oldlt: "userSocket st0 ! nat (findIndex ?p (userSocket st0)) < ?n"
    if "\<exists>u \<in> set (userSocket st0). ?p u"
  proof -
    from that have "findIndex ?p (userSocket st0) \<noteq> - 1" by (simp add: findIndex_none)
    from nth_findIndex [OF this] refs show ?thesis by simp
  qed
  have ids: "userId (heap ?st' ! x) = (if x = ?n then ?uid else ?f x)" if "x \<le> ?n" for x
  proof (cases "\<exists>u \<in> set (userSocket st0). ?p u")
    case False
    with that show ?thesis by (simp add: eq Let_def nth_append)
  next
    case True
    from oldlt [OF True] True that show ?thesis
      by (simp add: eq Let_def nth_list_update nth_append)
  qed
  let ?g = "\<lambda>ws. if ws = ?n then ?uid else ?f ws"
  have w0: "wf_reg ?n ?f (del1 ?p (userSocket st0))"
    using inv unfolding registry_inv_wf by (rule wf_reg_del1)
  have w1: "wf_reg ?n ?g (del1 ?p (userSocket st0))"
    by (rule wf_reg_cong [OF _ w0]) simp
  have gone: "\<forall>x \<in> set (del1 ?p (userSocket st0)). ?g x \<noteq> ?g ?n"
  proof
    fix x assume x: "x \<in> set (del1 ?p (userSocket st0))"
    from del1_key_gone [OF registry_inv_distinct [OF inv] x] have "?f x \<noteq> ?uid" .
    moreover from x set_del1 [of ?p "userSocket st0"] refs have "x < ?n" by auto
    ultimately show "?g x \<noteq> ?g ?n" by simp
  qed
  have w2: "wf_reg (Suc ?n) ?g (del1 ?p (userSocket st0) @ [?n])"
    using wf_reg_snoc [OF w1 _ gone] True by simp
  have "wf_reg (Suc ?n) (\<lambda>ws. userId (heap ?st' ! ws)) (del1 ?p (userSocket st0) @ [?n])"
    by (rule wf_reg_cong [OF _ w2]) (simp add: ids)
  then show ?thesis unfolding registry_inv_wf [of ?st'] us len .
qed


lemma inv_heartbeat_visit: "registry_inv st \<Longrightarrow> registry_inv (heartbeat_visit ws st)"
  by (simp add: heartbeat_visit_eq Let_def inv_broadcast inv_mod_socket
        registry_inv_cong [of "mod_socket ws terminate st\<lparr>userSocket := del1 p (userSocket st)\<rparr>"
                              "st\<lparr>userSocket := del1 p (userSocket st)\<rparr>" for p]
        inv_del1 heap_mod_socket)

lemma forEach_from_keeps:
  "(\<And>ws s. P s \<Longrightarrow> P (f ws s)) \<Longrightarrow> P st \<Longrightarrow> P (forEach_from k len f st)"
proof (induction k len f st rule: forEach_from.induct)
  case (1 k len f st)
  show ?case
  proof (cases "k < len")
    case True
    have "P (if k < length (userSocket st) then f (userSocket st ! k) st else st)"
      using "1.prems" by simp
    from "1.IH" [OF True "1.prems"(1) this] True show ?thesis
      by (simp add: forEach_from.simps [of k])
  next
    case False
    with "1.prems" show ?thesis by (simp add: forEach_from.simps [of k])
  qed
qed

lemma inv_heartbeat: "registry_inv st \<Longrightarrow> registry_inv (heartbeat st)"
  unfolding heartbeat_def by (rule forEach_from_keeps [of registry_inv]) (rule inv_heartbeat_visit)

lemma inv_sweep_from: "registry_inv st \<Longrightarrow> registry_inv (sweep_from n st)"
proof (induction n arbitrary: st)
  case 0
  then show ?case by simp
next
  case (Suc n)
  show ?case using Suc.prems by (auto simp: splice_nat intro!: Suc.IH inv_remove_nth)
qed

lemma inv_stale_sweep: "registry_inv st \<Longrightarrow> registry_inv (stale_sweep st)"
  by (simp add: stale_sweep_def Let_def inv_broadcast inv_sweep_from)

lemma inv_upd_reconciling: "registry_inv st \<Longrightarrow> registry_inv (st\<lparr>reconciling := q\<rparr>)"
  by (erule registry_inv_cong [rotated -1]) simp_all

lemma inv_delete: "registry_inv st \<Longrightarrow> registry_inv (deleteInactiveUsers now st)"
  by (simp add: deleteInactiveUsers_def Let_def inv_upd_reconciling)

lemma inv_delete_found: "registry_inv st \<Longrightarrow> registry_inv (deleteInactiveUsers_found c st)"
  by (simp add: deleteInactiveUsers_found_def Let_def inv_upd_reconciling)

lemma inv_delete_deleted: "registry_inv st \<Longrightarrow> registry_inv (deleteInactiveUsers_deleted c st)"
  by (auto simp: deleteInactiveUsers_deleted_def intro!: inv_broadcast elim: registry_inv_cong [rotated -1])

lemma send_loop_frame:
  "length (send_loop msg rs h) = length h \<and> userId (send_loop msg rs h ! x) = userId (h ! x)
   \<and> readyState (send_loop msg rs h ! x) = readyState (h ! x)
   \<and> isAlive (send_loop msg rs h ! x) = isAlive (h ! x)
   \<and> pings (send_loop msg rs h ! x) = pings (h ! x)
   \<and> terminations (send_loop msg rs h ! x) = terminations (h ! x)
   \<and> sendRaises (send_loop msg rs h ! x) = sendRaises (h ! x)"
proof (induction rs arbitrary: h)
  case Nil
  show ?case by simp
next
  case (Cons r rs)
  show ?case
  proof (cases "r < length h")
    case True
    then show ?thesis using Cons.IH [of "h[r := (h ! r)\<lparr>sent := sent (h ! r) @ [msg]\<rparr>]"]
      by (simp add: nth_list_update)
  next
    case False
    then show ?thesis using Cons.IH [of h] by (simp add: list_update_beyond)
  qed
qed

lemma inv_resume: "registry_inv st \<Longrightarrow> registry_inv (broadcast_resume ids st)"
  by (auto simp: broadcast_resume_def send_loop_frame elim: registry_inv_cong [rotated -1])

lemma inv_upd_pending: "registry_inv st \<Longrightarrow> registry_inv (st\<lparr>pending := q\<rparr>)"
  by (erule registry_inv_cong [rotated -1]) simp_all

lemma inv_upd_dbUp: "registry_inv st \<Longrightarrow> registry_inv (st\<lparr>dbUp := b\<rparr>)"
  by (erule registry_inv_cong [rotated -1]) simp_all

lemma inv_upd_users: "registry_inv st \<Longrightarrow> registry_inv (st\<lparr>users := us\<rparr>)"
  by (erule registry_inv_cong [rotated -1]) simp_all

lemma inv_step: "registry_inv st \<Longrightarrow> registry_inv (step e st)"
proof (cases e)
  case (Close ws)
  assume "registry_inv st"
  then have "registry_inv (mod_socket ws (\<lambda>s. s\<lparr>readyState := CLOSED\<rparr>) st)"
    by (simp add: inv_mod_socket)
  with \<open>registry_inv st\<close> Close show ?thesis
    by (simp add: Let_def inv_close split: option.split)
next
  case QueryDone
  assume "registry_inv st"
  with QueryDone show ?thesis
    by (simp add: inv_resume inv_upd_pending split: list.split)
next
  case ReconcilerReply
  assume "registry_inv st"
  with ReconcilerReply show ?thesis
    by (simp add: inv_delete_found inv_delete_deleted inv_upd_reconciling
             split: list.split reconcile.split)
qed (simp_all add: inv_connection ws_on_pong_def inv_mod_socket inv_heartbeat inv_stale_sweep
        inv_delete inv_upd_dbUp inv_upd_users)

lemma inv_run: "registry_inv st \<Longrightarrow> registry_inv (run es st)"
  by (induction es arbitrary: st) (simp_all add: inv_step)

lemma inv_init: "registry_inv (init us)"
  by (simp add: registry_inv_def init_def reg_ids_def)

lemma inv_reachable: "registry_inv (run es (init us))"
  by (rule inv_run [OF inv_init])


lemma del1_filter:
  "distinct (map f xs) \<Longrightarrow> del1 (\<lambda>u. f u = v) xs = filter (\<lambda>u. f u \<noteq> v) xs"
proof (induction xs)
  case Nil
  show ?case by simp
next
  case (Cons x xs)
  show ?case
  proof (cases "f x = v")
    case True
    with Cons.prems have "\<forall>u \<in> set xs. f u \<noteq> v" by (auto simp: image_iff)
    then have "filter (\<lambda>u. f u \<noteq> v) xs = xs" by simp
    with True show ?thesis by simp
  next
    case False
    with Cons show ?thesis by simp
  qed
qed

lemma distinct_key_once:
  "distinct (map f xs) \<Longrightarrow> length (filter (\<lambda>u. f u = v) xs) \<le> 1"
proof (induction xs)
  case Nil
  show ?case by simp
next
  case (Cons x xs)
  show ?case
  proof (cases "f x = v")
    case True
    with Cons.prems have "\<forall>u \<in> set xs. f u \<noteq> v" by (auto simp: image_iff)
    then have "filter (\<lambda>u. f u = v) xs = []" by (simp add: filter_empty_conv)
    with True show ?thesis by simp
  next
    case False
    with Cons show ?thesis by simp
  qed
qed

subsection \<open>The heartbeat and the staleness sweep\<close>

lemma forEach_from_keeps_mem:
  "(\<And>w s. P s \<Longrightarrow> w \<in> set (userSocket s) \<Longrightarrow> P (f w s)) \<Longrightarrow> P st \<Longrightarrow> P (forEach_from k len f st)"
proof (induction k len f st rule: forEach_from.induct)
  case (1 k len f st)
  show ?case
  proof (cases "k < len")
    case True
    have "P (if k < length (userSocket st) then f (userSocket st ! k) st else st)"
      using "1.prems" by simp
    from "1.IH" [OF True "1.prems"(1) this] True show ?thesis
      by (simp add: forEach_from.simps [of k])
  next
    case False
    with "1.prems" show ?thesis by (simp add: forEach_from.simps [of k])
  qed
qed

lemma heartbeat_visit_closed: "readyState (heap s ! w) \<noteq> OPEN \<Longrightarrow> heartbeat_visit w s = s"
  by (simp add: heartbeat_visit_def)

lemma heartbeat_visit_registry: "set (userSocket (heartbeat_visit w s)) \<subseteq> set (userSocket s)"
  using set_del1 [of "\<lambda>u. userId (heap s ! u) = userId (heap s ! w)" "userSocket s"]
  by (auto simp: heartbeat_visit_eq Let_def)

lemma heartbeat_visit_heap_length: "length (heap (heartbeat_visit w s)) = length (heap s)"
  by (simp add: heartbeat_visit_eq Let_def)

lemma heartbeat_visit_userId: "userId (heap (heartbeat_visit w s) ! x) = userId (heap s ! x)"
  by (simp add: heartbeat_visit_eq Let_def heap_mod_socket)

lemma heartbeat_visit_other: "x \<noteq> w \<Longrightarrow> heap (heartbeat_visit w s) ! x = heap s ! x"
  by (simp add: heartbeat_visit_eq Let_def heap_mod_socket)

lemma heartbeat_visit_count:
  "\<exists>new. pending (heartbeat_visit w s) = pending s @ new
         \<and> length new + length (userSocket (heartbeat_visit w s)) = length (userSocket s)"
  using length_del1 [of "userSocket s" "\<lambda>u. userId (heap s ! u) = userId (heap s ! w)"]
  by (auto simp: heartbeat_visit_eq Let_def)

lemma heartbeat_visit_keeps_others:
  assumes inv: "registry_inv s" and w: "w \<in> set (userSocket s)"
    and x: "x \<in> set (userSocket s)" and ne: "x \<noteq> w"
  shows "x \<in> set (userSocket (heartbeat_visit w s))"
proof -
  let ?f = "\<lambda>u. userId (heap s ! u)"
  have d: "distinct (map ?f (userSocket s))" using inv by (rule registry_inv_distinct)
  then have "inj_on ?f (set (userSocket s))" by (simp add: distinct_map)
  with w x ne have "?f x \<noteq> ?f w" by (auto simp: inj_on_def)
  with x have "x \<in> set (filter (\<lambda>u. ?f u \<noteq> ?f w) (userSocket s))" by simp
  then have "x \<in> set (del1 (\<lambda>u. ?f u = ?f w) (userSocket s))" by (simp add: del1_filter [OF d])
  with x show ?thesis by (auto simp: heartbeat_visit_eq Let_def)
qed

lemma heartbeat_count:
  "\<exists>new. pending (heartbeat st) = pending st @ new
         \<and> length new + length (userSocket (heartbeat st)) = length (userSocket st)"
  unfolding heartbeat_def
proof (rule forEach_from_keeps_mem
         [of "\<lambda>s. \<exists>new. pending s = pending st @ new
                        \<and> length new + length (userSocket s) = length (userSocket st)"])
  fix w :: nat and s :: server
  assume "\<exists>new. pending s = pending st @ new
                \<and> length new + length (userSocket s) = length (userSocket st)"
  then obtain new where n: "pending s = pending st @ new"
    "length new + length (userSocket s) = length (userSocket st)" by blast
  from heartbeat_visit_count [of w s] obtain new' where n': "pending (heartbeat_visit w s) = pending s @ new'"
    "length new' + length (userSocket (heartbeat_visit w s)) = length (userSocket s)" by blast
  from n n' have "pending (heartbeat_visit w s) = pending st @ (new @ new')
      \<and> length (new @ new') + length (userSocket (heartbeat_visit w s)) = length (userSocket st)"
    by simp
  then show "\<exists>new. pending (heartbeat_visit w s) = pending st @ new
                \<and> length new + length (userSocket (heartbeat_visit w s)) = length (userSocket st)"
    by blast
qed simp

lemma heartbeat_frame:
  assumes inv: "registry_inv st" and ws: "ws \<in> set (userSocket st)"
    and closed: "readyState (heap st ! ws) \<noteq> OPEN"
  shows "registry_inv (heartbeat st) \<and> ws \<in> set (userSocket (heartbeat st))
         \<and> heap (heartbeat st) ! ws = heap st ! ws"
  unfolding heartbeat_def
proof (rule forEach_from_keeps_mem
         [of "\<lambda>s. registry_inv s \<and> ws \<in> set (userSocket s) \<and> heap s ! ws = heap st ! ws"])
  fix w :: nat and s :: server
  assume p: "registry_inv s \<and> ws \<in> set (userSocket s) \<and> heap s ! ws = heap st ! ws"
    and w: "w \<in> set (userSocket s)"
  show "registry_inv (heartbeat_visit w s) \<and> ws \<in> set (userSocket (heartbeat_visit w s))
        \<and> heap (heartbeat_visit w s) ! ws = heap st ! ws"
  proof (cases "w = ws")
    case True
    with p closed have "heartbeat_visit w s = s" by (simp add: heartbeat_visit_closed)
    with p show ?thesis by simp
  next
    case False
    with p w show ?thesis
      by (simp add: inv_heartbeat_visit heartbeat_visit_keeps_others heartbeat_visit_other)
  qed
next
  from inv ws show "registry_inv st \<and> ws \<in> set (userSocket st) \<and> heap st ! ws = heap st ! ws" by simp
qed

lemma heartbeat_shrinks:
  "set (userSocket (heartbeat st)) \<subseteq> set (userSocket st)
   \<and> length (heap (heartbeat st)) = length (heap st)
   \<and> (\<forall>x. userId (heap (heartbeat st) ! x) = userId (heap st ! x))"
  unfolding heartbeat_def
proof (rule forEach_from_keeps_mem
         [of "\<lambda>s. set (userSocket s) \<subseteq> set (userSocket st) \<and> length (heap s) = length (heap st)
                \<and> (\<forall>x. userId (heap s ! x) = userId (heap st ! x))"])
  fix w :: nat and s :: server
  assume "set (userSocket s) \<subseteq> set (userSocket st) \<and> length (heap s) = length (heap st)
          \<and> (\<forall>x. userId (heap s ! x) = userId (heap st ! x))"
  then show "set (userSocket (heartbeat_visit w s)) \<subseteq> set (userSocket st)
          \<and> length (heap (heartbeat_visit w s)) = length (heap st)
          \<and> (\<forall>x. userId (heap (heartbeat_visit w s) ! x) = userId (heap st ! x))"
    using heartbeat_visit_registry [of w s]
    by (auto simp: heartbeat_visit_heap_length heartbeat_visit_userId)
qed simp

lemma sweep_from_filter:
  "n \<le> length (userSocket st) \<Longrightarrow>
   sweep_from n st =
     st\<lparr>userSocket := filter (\<lambda>w. readyState (heap st ! w) = OPEN) (take n (userSocket st))
                        @ drop n (userSocket st)\<rparr>"
proof (induction n arbitrary: st)
  case 0
  show ?case by simp
next
  case (Suc n)
  let ?xs = "userSocket st"
  from Suc.prems have lt: "n < length ?xs" by simp
  have tk: "take (Suc n) ?xs = take n ?xs @ [?xs ! n]" using lt by (simp add: take_Suc_conv_app_nth)
  show ?case
  proof (cases "readyState (heap st ! (?xs ! n)) \<noteq> OPEN")
    case True
    let ?st1 = "st\<lparr>userSocket := take n ?xs @ drop (Suc n) ?xs\<rparr>"
    have "n \<le> length (userSocket ?st1)" using lt by simp
    from Suc.IH [OF this] True lt show ?thesis
      by (simp add: splice_nat tk)
  next
    case False
    have "n \<le> length ?xs" using lt by simp
    from Suc.IH [OF this] False lt show ?thesis
      by (simp add: tk Cons_nth_drop_Suc)
  qed
qed

lemma stale_sweep_registry:
  "userSocket (stale_sweep st) = filter (\<lambda>w. readyState (heap st ! w) = OPEN) (userSocket st)
   \<and> heap (stale_sweep st) = heap st"
  using sweep_from_filter [of "length (userSocket st)" st]
  by (simp add: stale_sweep_def Let_def)

subsection \<open>Removal by identity\<close>

lemma ws_on_close_filter:
  assumes inv: "registry_inv st"
  shows "userSocket (ws_on_close uid st) = filter (\<lambda>w. userId (heap st ! w) \<noteq> Some uid) (userSocket st)
         \<and> heap (ws_on_close uid st) = heap st"
proof -
  let ?f = "\<lambda>w. userId (heap st ! w)"
  have d: "distinct (map ?f (userSocket st))" using inv by (rule registry_inv_distinct)
  show ?thesis
  proof (cases "\<exists>u \<in> set (userSocket st). ?f u = Some uid")
    case True
    then show ?thesis by (simp add: ws_on_close_eq del1_filter [OF d])
  next
    case False
    then have "filter (\<lambda>w. ?f w \<noteq> Some uid) (userSocket st) = userSocket st" by simp
    with False show ?thesis by (simp add: ws_on_close_eq)
  qed
qed

lemma ws_on_close_absent:
  "\<forall>u \<in> set (userSocket st). userId (heap st ! u) \<noteq> Some uid \<Longrightarrow> ws_on_close uid st = st"
  by (simp add: ws_on_close_eq)

lemma ws_on_close_twice:
  assumes inv: "registry_inv st"
  shows "ws_on_close uid (ws_on_close uid st) = ws_on_close uid st"
proof (rule ws_on_close_absent)
  from ws_on_close_filter [OF inv, of uid]
  show "\<forall>u \<in> set (userSocket (ws_on_close uid st)). userId (heap (ws_on_close uid st) ! u) \<noteq> Some uid"
    by simp
qed

lemma ws_on_close_count:
  "length (userSocket st) \<le> Suc (length (userSocket (ws_on_close uid st)))
   \<and> length (pending (ws_on_close uid st)) \<le> Suc (length (pending st))
   \<and> ((\<exists>u \<in> set (userSocket st). userId (heap st ! u) = Some uid) \<longrightarrow>
        Suc (length (userSocket (ws_on_close uid st))) = length (userSocket st)
        \<and> length (pending (ws_on_close uid st)) = Suc (length (pending st)))"
  using length_del1 [of "userSocket st" "\<lambda>u. userId (heap st ! u) = Some uid"]
  by (auto simp: ws_on_close_eq)

lemma close_after_eviction:
  assumes inv: "registry_inv st" and ws: "ws \<in> set (userSocket st)"
    and gone: "ws \<notin> set (userSocket (heartbeat st))"
  shows "userSocket (step (Close ws) (heartbeat st)) = userSocket (heartbeat st)
         \<and> pending (step (Close ws) (heartbeat st)) = pending (heartbeat st)"
proof -
  let ?s = "heartbeat st"
  let ?s1 = "mod_socket ws (\<lambda>s. s\<lparr>readyState := CLOSED\<rparr>) ?s"
  note sh = heartbeat_shrinks [of st]
  have d: "inj_on (\<lambda>w. userId (heap st ! w)) (set (userSocket st))"
    using registry_inv_distinct [OF inv] by (simp add: distinct_map)
  have none: "userId (heap ?s1 ! u) \<noteq> userId (heap ?s1 ! ws)" if u: "u \<in> set (userSocket ?s1)" for u
  proof -
    from u sh have u0: "u \<in> set (userSocket st)" by auto
    from u gone have ne: "u \<noteq> ws" by auto
    with d u0 ws have "userId (heap st ! u) \<noteq> userId (heap st ! ws)" by (auto simp: inj_on_def)
    with sh ne show ?thesis by (simp add: heap_mod_socket)
  qed
  have closeh: "ws_on_close uid ?s1 = ?s1" if "userId (heap ?s1 ! ws) = Some uid" for uid
    using none that by (intro ws_on_close_absent) auto
  show ?thesis
    by (auto simp: Let_def closeh split: option.split)
qed

subsection \<open>The broadcast loop and the reconciler\<close>

lemma send_loop_nth:
  "distinct rs \<Longrightarrow> \<forall>r \<in> set rs. r < length h \<Longrightarrow>
   send_loop msg rs h ! r =
     (if r \<in> set (takeWhile (\<lambda>w. \<not> sendRaises (h ! w)) rs)
      then (h ! r)\<lparr>sent := sent (h ! r) @ [msg]\<rparr> else h ! r)"
proof (induction rs arbitrary: h)
  case Nil
  show ?case by simp
next
  case (Cons r0 rs)
  show ?case
  proof (cases "sendRaises (h ! r0)")
    case True
    then show ?thesis by simp
  next
    case False
    let ?h' = "h[r0 := (h ! r0)\<lparr>sent := sent (h ! r0) @ [msg]\<rparr>]"
    from Cons.prems have lt: "r0 < length h" and d: "distinct rs" and notin: "r0 \<notin> set rs"
      and refs: "\<forall>r \<in> set rs. r < length ?h'" by simp_all
    have same: "sendRaises (?h' ! w) = sendRaises (h ! w)" for w
      using lt by (cases "w = r0") simp_all
    have tw: "takeWhile (\<lambda>w. \<not> sendRaises (?h' ! w)) rs = takeWhile (\<lambda>w. \<not> sendRaises (h ! w)) rs"
      by (simp add: same)
    note ih = Cons.IH [OF d refs, unfolded tw]
    from notin have out: "r0 \<notin> set (takeWhile (\<lambda>w. \<not> sendRaises (h ! w)) rs)"
      using set_takeWhileD by metis
    show ?thesis
    proof (cases "r = r0")
      case True
      with False lt out ih show ?thesis by simp
    next
      case ne: False
      with False lt show ?thesis by (simp add: ih)
    qed
  qed
qed

lemma registry_inv_distinct_refs: "registry_inv st \<Longrightarrow> distinct (userSocket st)"
  using registry_inv_distinct [of st] by (simp add: distinct_map)

lemma broadcast_resume_sent:
  assumes inv: "registry_inv st" and up: "dbUp st"
  shows "heap (broadcast_resume ids st) ! r =
     (if r \<in> set (takeWhile (\<lambda>w. \<not> sendRaises (heap st ! w)) (userSocket st))
      then (heap st ! r)\<lparr>sent := sent (heap st ! r) @ [status_message ids (users st)]\<rparr>
      else heap st ! r)"
  using send_loop_nth [OF registry_inv_distinct_refs [OF inv] registry_inv_refs [OF inv]] up
  by (simp add: broadcast_resume_def)

lemma broadcast_resume_proj [simp]:
  "userSocket (broadcast_resume ids st) = userSocket st"
  "users (broadcast_resume ids st) = users st"
  "pending (broadcast_resume ids st) = pending st"
  "dbUp (broadcast_resume ids st) = dbUp st"
  "touches (broadcast_resume ids st) = touches st"
  by (simp_all add: broadcast_resume_def)

lemma onlineUserIds_set:
  assumes inv: "registry_inv st"
  shows "set (onlineUserIds st) = {uid. \<exists>w \<in> set (userSocket st). userId (heap st ! w) = Some uid}"
proof -
  have b: "\<forall>w \<in> set (userSocket st). Boolean (userId (heap st ! w))"
    using inv by (simp add: registry_inv_def list_all_iff)
  then have "filter Boolean (map (\<lambda>ws. userId (heap st ! ws)) (userSocket st))
               = map (\<lambda>ws. userId (heap st ! ws)) (userSocket st)"
    by (simp add: filter_id_conv)
  then have "set (onlineUserIds st) = (\<lambda>w. the (userId (heap st ! w))) ` set (userSocket st)"
    by (simp add: onlineUserIds_def image_image)
  also have "\<dots> = {uid. \<exists>w \<in> set (userSocket st). userId (heap st ! w) = Some uid}"
  proof (intro set_eqI iffI)
    fix uid assume "uid \<in> (\<lambda>w. the (userId (heap st ! w))) ` set (userSocket st)"
    then obtain w where w: "w \<in> set (userSocket st)" "uid = the (userId (heap st ! w))" by auto
    from b w(1) have "userId (heap st ! w) \<noteq> None" by (cases "userId (heap st ! w)") auto
    with w show "uid \<in> {uid. \<exists>w \<in> set (userSocket st). userId (heap st ! w) = Some uid}" by auto
  next
    fix uid assume "uid \<in> {uid. \<exists>w \<in> set (userSocket st). userId (heap st ! w) = Some uid}"
    then obtain w where "w \<in> set (userSocket st)" "userId (heap st ! w) = Some uid" by auto
    then show "uid \<in> (\<lambda>w. the (userId (heap st ! w))) ` set (userSocket st)" by force
  qed
  finally show ?thesis .
qed

lemma connection_replaces:
  assumes inv: "registry_inv st" and ws: "ws \<in> set (userSocket st)"
    and same: "url_userId url = userId (heap st ! ws)"
  shows "ws \<notin> set (userSocket (wss_on_connection url now st))"
proof -
  let ?f = "\<lambda>w. userId (heap st ! w)"
  have refs: "\<forall>w \<in> set (userSocket st). w < length (heap st)" using inv by (rule registry_inv_refs)
  have d: "distinct (map ?f (userSocket st))" using inv by (rule registry_inv_distinct)
  from inv ws have "Boolean (userId (heap st ! ws))" by (simp add: registry_inv_def list_all_iff)
  with same have ok: "Boolean (url_userId url)" by simp
  have "userSocket (wss_on_connection url now st)
          = filter (\<lambda>w. ?f w \<noteq> url_userId url) (userSocket st) @ [length (heap st)]"
    by (simp add: connection_admit [OF refs ok] Let_def del1_filter [OF d])
  moreover from ws refs have "ws \<noteq> length (heap st)" by auto
  ultimately show ?thesis using same by simp
qed

lemma heartbeat_visit_broadcast:
  "pending (heartbeat_visit w s)
     = pending s @ (if length (userSocket (heartbeat_visit w s)) < length (userSocket s)
                    then [onlineUserIds (heartbeat_visit w s)] else [])"
proof -
  let ?p = "\<lambda>u. userId (heap s ! u) = userId (heap s ! w)"
  have found: "length (del1 ?p (userSocket s)) < length (userSocket s)"
    if "\<exists>u \<in> set (userSocket s). ?p u"
    using length_del1 [OF that] by simp
  have oi: "onlineUserIds (broadcastUserStatus t) = onlineUserIds t" for t
    by (simp add: onlineUserIds_def)
  show ?thesis
    by (auto simp: heartbeat_visit_eq Let_def found oi)
qed


section \<open>Claims\<close>

text \<open>
  C1. For every sequence of events processed by the event loop, the registry never holds
  two entries with the same \<open>userId\<close>. Admitting a connection whose \<open>userId\<close> already has
  an entry terminates the prior entry's transport and removes that entry; the new socket is
  appended, so that exactly one entry for that \<open>userId\<close> remains.
\<close>

theorem registry_unique:
  assumes reach: "st = run es (init us)"
    and adm: "st' = wss_on_connection url now st"
  shows "distinct (map (\<lambda>ws. userId (heap st ! ws)) (userSocket st)) \<and>
         (Boolean (url_userId url) \<longrightarrow>
            userSocket st' =
              filter (\<lambda>ws. userId (heap st ! ws) \<noteq> url_userId url) (userSocket st) @ [length (heap st)]
            \<and> length (filter (\<lambda>ws. userId (heap st' ! ws) = url_userId url) (userSocket st')) = 1
            \<and> distinct (map (\<lambda>ws. userId (heap st' ! ws)) (userSocket st'))
            \<and> (\<forall>old \<in> set (userSocket st). userId (heap st ! old) = url_userId url \<longrightarrow>
                  old \<notin> set (userSocket st')
                  \<and> terminations (heap st' ! old) = Suc (terminations (heap st ! old))
                  \<and> readyState (heap st' ! old) \<noteq> OPEN))"
proof -
  have inv: "registry_inv st" unfolding reach by (rule inv_reachable)
  let ?f = "\<lambda>ws. userId (heap st ! ws)"
  have d: "distinct (map ?f (userSocket st))" using inv by (rule registry_inv_distinct)
  have refs: "\<forall>ws \<in> set (userSocket st). ws < length (heap st)" using inv by (rule registry_inv_refs)
  have admit: ?thesis if ok: "Boolean (url_userId url)"
  proof -
    let ?uid = "url_userId url"
    let ?n = "length (heap st)"
    let ?st' = "wss_on_connection url now st"
    let ?p = "\<lambda>u. ?f u = ?uid"
    let ?kept = "filter (\<lambda>ws. ?f ws \<noteq> ?uid) (userSocket st)"
    note eq = connection_admit [OF refs ok, of now]
    have us: "userSocket ?st' = ?kept @ [?n]"
      by (simp add: eq Let_def del1_filter [OF d])
    have inv': "registry_inv ?st'" using inv by (rule inv_connection)
    have d': "distinct (map (\<lambda>ws. userId (heap ?st' ! ws)) (userSocket ?st'))"
      using inv' by (rule registry_inv_distinct)
    have new: "userId (heap ?st' ! ?n) = ?uid"
    proof (cases "\<exists>u \<in> set (userSocket st). ?p u")
      case False
      then show ?thesis by (simp add: eq Let_def)
    next
      case True
      then have "findIndex ?p (userSocket st) \<noteq> - 1" by (simp add: findIndex_none)
      from nth_findIndex [OF this] refs
      have "userSocket st ! nat (findIndex ?p (userSocket st)) < ?n" by simp
      with True show ?thesis by (simp add: eq Let_def)
    qed
    have "?n \<in> set (userSocket ?st')" by (simp add: us)
    with new have "\<exists>ws \<in> set (userSocket ?st'). userId (heap ?st' ! ws) = ?uid" by blast
    then have "filter (\<lambda>ws. userId (heap ?st' ! ws) = ?uid) (userSocket ?st') \<noteq> []"
      by (simp add: filter_empty_conv)
    moreover have "length (filter (\<lambda>ws. userId (heap ?st' ! ws) = ?uid) (userSocket ?st')) \<le> 1"
      using d' by (rule distinct_key_once)
    ultimately have one: "length (filter (\<lambda>ws. userId (heap ?st' ! ws) = ?uid) (userSocket ?st')) = 1"
      by (cases "filter (\<lambda>ws. userId (heap ?st' ! ws) = ?uid) (userSocket ?st')") auto
    have olds: "old \<notin> set (userSocket ?st')
               \<and> terminations (heap ?st' ! old) = Suc (terminations (heap st ! old))
               \<and> readyState (heap ?st' ! old) \<noteq> OPEN"
      if o: "old \<in> set (userSocket st)" and oid: "?f old = ?uid" for old
    proof -
      from o oid have ex: "\<exists>u \<in> set (userSocket st). ?p u" by blast
      then have ne: "findIndex ?p (userSocket st) \<noteq> - 1" by (simp add: findIndex_none)
      let ?e = "userSocket st ! nat (findIndex ?p (userSocket st))"
      from nth_findIndex [OF ne] have e: "?p ?e" "?e \<in> set (userSocket st)" by simp_all
      from d o e oid have "?e = old"
        by (metis (mono_tags, lifting) distinct_map inj_on_def)
      moreover from o refs have "old < ?n" by simp
      ultimately have "terminations (heap ?st' ! old) = Suc (terminations (heap st ! old))
               \<and> readyState (heap ?st' ! old) \<noteq> OPEN"
        using ex by (simp add: eq Let_def nth_append)
      moreover from oid \<open>old < ?n\<close> have "old \<notin> set (userSocket ?st')" by (simp add: us)
      ultimately show ?thesis by simp
    qed
    from us one d' olds d show ?thesis unfolding adm by blast
  qed
  from d admit show ?thesis by blast
qed

theorem registry_unique_witness:
  "Boolean (url_userId url_u1)
   \<and> 0 \<in> set (userSocket st_u1)
   \<and> userId (heap st_u1 ! 0) = url_userId url_u1
   \<and> distinct (map (\<lambda>ws. userId (heap st_u1 ! ws)) (userSocket st_u1))
   \<and> userSocket (wss_on_connection url_u1 1 st_u1) = [1]
   \<and> length (filter (\<lambda>ws. userId (heap (wss_on_connection url_u1 1 st_u1) ! ws) = url_userId url_u1)
                (userSocket (wss_on_connection url_u1 1 st_u1))) = 1
   \<and> 0 \<notin> set (userSocket (wss_on_connection url_u1 1 st_u1))
   \<and> terminations (heap (wss_on_connection url_u1 1 st_u1) ! 0) = Suc (terminations (heap st_u1 ! 0))
   \<and> readyState (heap (wss_on_connection url_u1 1 st_u1) ! 0) \<noteq> OPEN"
proof -
  have r: "st_u1 = run [Connection url_u1 0] (init [])" by (simp add: st_u1_def)
  have h1: "Boolean (url_userId url_u1)" by code_simp
  have h2: "0 \<in> set (userSocket st_u1)" by code_simp
  have h3: "userId (heap st_u1 ! 0) = url_userId url_u1" by code_simp
  have e: "filter (\<lambda>ws. userId (heap st_u1 ! ws) \<noteq> url_userId url_u1) (userSocket st_u1) @ [length (heap st_u1)] = [1]"
    by code_simp
  let ?st' = "wss_on_connection url_u1 1 st_u1"
  note t = registry_unique [OF r refl, of url_u1 1]
  from t have d: "distinct (map (\<lambda>ws. userId (heap st_u1 ! ws)) (userSocket st_u1))"
    by (rule conjunct1)
  from t [THEN conjunct2, THEN mp, OF h1]
  have us: "userSocket ?st' = filter (\<lambda>ws. userId (heap st_u1 ! ws) \<noteq> url_userId url_u1) (userSocket st_u1) @ [length (heap st_u1)]"
    and one: "length (filter (\<lambda>ws. userId (heap ?st' ! ws) = url_userId url_u1) (userSocket ?st')) = 1"
    and olds: "\<forall>old \<in> set (userSocket st_u1). userId (heap st_u1 ! old) = url_userId url_u1 \<longrightarrow>
                 old \<notin> set (userSocket ?st')
                 \<and> terminations (heap ?st' ! old) = Suc (terminations (heap st_u1 ! old))
                 \<and> readyState (heap ?st' ! old) \<noteq> OPEN"
    by blast+
  from us e have us1: "userSocket ?st' = [1]" by (simp only:)
  from olds h2 h3 have
    "0 \<notin> set (userSocket ?st')
     \<and> terminations (heap ?st' ! 0) = Suc (terminations (heap st_u1 ! 0))
     \<and> readyState (heap ?st' ! 0) \<noteq> OPEN"
    by blast
  with h1 h2 h3 d us1 one show ?thesis by blast
qed

text \<open>
  C2. The scenario of a reconnect: \<open>u1\<close> connects (socket 0), then a second connection
  arrives with the same identity (socket 1) before socket 0 has closed. The admission
  terminates socket 0 and leaves the registry with the one entry of socket 1. When the
  \<^verbatim>\<open>close\<close> event of the terminated socket 0 is then delivered, its handler looks the
  entry up by \<open>userId\<close>, finds the entry of socket 1 and removes it: the registry is empty
  although socket 1 is open, and the broadcast that the handler triggers has an empty
  \<^verbatim>\<open>onlineUserIds\<close>.
\<close>

theorem reconnect_then_old_close:
  "userSocket st_reconnected = [1]
   \<and> terminations (heap st_reconnected ! 0) = 1
   \<and> readyState (heap st_reconnected ! 0) = CLOSING
   \<and> userId (heap st_reconnected ! 1) = Some id_u1
   \<and> userSocket (step (Close 0) st_reconnected) = []
   \<and> readyState (heap (step (Close 0) st_reconnected) ! 1) = OPEN
   \<and> pending (step (Close 0) st_reconnected) = [[]]"
  by code_simp

text \<open>
  C3. A silent entry is not always evicted on the second heartbeat tick after its
  admission. \<open>u1\<close> (socket 0) has been probed once and stays silent; \<open>u2\<close> (socket 1) is
  admitted and never answers. The first tick after that evicts socket 0 and, because the
  \<^verbatim>\<open>splice\<close> moved socket 1 down to the index that \<^verbatim>\<open>forEach\<close> has just left, passes over
  socket 1: no probe is sent and its flag stays set. The second tick only clears the flag
  and probes; socket 1 is evicted on the third tick.
\<close>

theorem heartbeat_skips_next_entry:
  "userSocket st_two = [0, 1]
   \<and> userSocket (step Heartbeat st_two) = [1]
   \<and> pings (heap (step Heartbeat st_two) ! 1) = 0
   \<and> isAlive (heap (step Heartbeat st_two) ! 1) = Some True
   \<and> userSocket (run [Heartbeat, Heartbeat] st_two) = [1]
   \<and> readyState (heap (run [Heartbeat, Heartbeat] st_two) ! 1) = OPEN
   \<and> terminations (heap (run [Heartbeat, Heartbeat] st_two) ! 1) = 0
   \<and> userSocket (run [Heartbeat, Heartbeat, Heartbeat] st_two) = []
   \<and> terminations (heap (run [Heartbeat, Heartbeat, Heartbeat] st_two) ! 1) = 1"
  by code_simp

text \<open>
  C4, as amended. A heartbeat sweep triggers one broadcast for each entry it removes: the
  broadcasts of a sweep are as many as the entries the registry lost, and none if it lost
  none. Each of them is triggered inside the callback that removed the entry, with the
  registry as that removal left it, not at the end of the sweep.
\<close>

theorem heartbeat_broadcast_per_eviction:
  "(\<exists>new. pending (heartbeat st) = pending st @ new
          \<and> length new + length (userSocket (heartbeat st)) = length (userSocket st))
   \<and> pending (heartbeat_visit w s)
       = pending s @ (if length (userSocket (heartbeat_visit w s)) < length (userSocket s)
                      then [onlineUserIds (heartbeat_visit w s)] else [])"
  using heartbeat_count [of st] heartbeat_visit_broadcast [of w s] by blast

text \<open>
  C4, the claim as stated fails: with three silent entries a sweep evicts two of them and
  triggers two broadcasts, the first of them while the entry evicted second is still
  registered.
\<close>

theorem heartbeat_two_broadcasts:
  "userSocket st_three_silent = [0, 1, 2]
   \<and> pending st_three_silent = []
   \<and> userSocket (heartbeat st_three_silent) = [1]
   \<and> pending (heartbeat st_three_silent) = [[id_u2, id_u3], [id_u2]]"
  by code_simp

text \<open>
  C10, as amended. In every state the server reaches, a registry entry whose transport is
  not open is left alone by the heartbeat sweep, whatever its alive flag: it is still
  registered afterwards and its socket (alive flag, probe count, termination count, ready
  state) is unchanged. The staleness sweep removes such entries: it keeps exactly the open
  ones. The \<^verbatim>\<open>close\<close> handler of the entry's socket and the admission of a connection with the
  same \<open>userId\<close> remove the entry as well.
\<close>

theorem heartbeat_leaves_closed_entries:
  assumes reach: "st = run es (init us)"
    and ws: "ws \<in> set (userSocket st)"
    and closed: "readyState (heap st ! ws) \<noteq> OPEN"
  shows "ws \<in> set (userSocket (heartbeat st))
         \<and> heap (heartbeat st) ! ws = heap st ! ws
         \<and> userSocket (stale_sweep st) = filter (\<lambda>w. readyState (heap st ! w) = OPEN) (userSocket st)
         \<and> heap (stale_sweep st) = heap st
         \<and> ws \<notin> set (userSocket (stale_sweep st))
         \<and> (userId (heap st ! ws) = Some uid \<longrightarrow> ws \<notin> set (userSocket (ws_on_close uid st)))
         \<and> (url_userId url = userId (heap st ! ws) \<longrightarrow> ws \<notin> set (userSocket (wss_on_connection url now st)))"
proof -
  have inv: "registry_inv st" unfolding reach by (rule inv_reachable)
  have cl: "ws \<notin> set (userSocket (ws_on_close uid st))" if "userId (heap st ! ws) = Some uid"
    using that by (simp add: ws_on_close_filter [OF inv])
  from heartbeat_frame [OF inv ws closed] stale_sweep_registry [of st] closed cl
    connection_replaces [OF inv ws, of url now]
  show ?thesis by simp
qed

theorem heartbeat_leaves_closed_entries_witness:
  "st_closing = run [Connection url_u1 0, Connection url_u2 0, Connection url_u3 0, Heartbeat, PeerClosing 1] (init [])
   \<and> 1 \<in> set (userSocket st_closing)
   \<and> readyState (heap st_closing ! 1) \<noteq> OPEN
   \<and> userId (heap st_closing ! 1) = Some id_u2
   \<and> url_userId url_u2 = userId (heap st_closing ! 1)
   \<and> 1 \<in> set (userSocket (heartbeat st_closing))
   \<and> heap (heartbeat st_closing) ! 1 = heap st_closing ! 1
   \<and> userSocket (stale_sweep st_closing) = filter (\<lambda>w. readyState (heap st_closing ! w) = OPEN) (userSocket st_closing)
   \<and> heap (stale_sweep st_closing) = heap st_closing
   \<and> 1 \<notin> set (userSocket (stale_sweep st_closing))
   \<and> 1 \<notin> set (userSocket (ws_on_close id_u2 st_closing))
   \<and> 1 \<notin> set (userSocket (wss_on_connection url_u2 9 st_closing))"
proof -
  have r: "st_closing = run [Connection url_u1 0, Connection url_u2 0, Connection url_u3 0, Heartbeat, PeerClosing 1] (init [])"
    by (simp add: st_closing_def)
  have h1: "1 \<in> set (userSocket st_closing)" by code_simp
  have h2: "readyState (heap st_closing ! 1) \<noteq> OPEN" by code_simp
  have h3: "userId (heap st_closing ! 1) = Some id_u2" by code_simp
  have h4: "url_userId url_u2 = userId (heap st_closing ! 1)" by code_simp
  from heartbeat_leaves_closed_entries [OF r h1 h2, of id_u2 url_u2 9] r h1 h2 h3 h4 show ?thesis by blast
qed

text \<open>
  C10, the claim as stated fails: the staleness sweep is not the only code that removes an
  entry whose transport is not open. Socket 1 is registered and closing; the \<^verbatim>\<open>close\<close>
  event of its transport makes the \<^verbatim>\<open>close\<close> handler remove the entry, and so does the
  admission of a new connection with the same \<open>userId\<close>; no staleness sweep has run.
\<close>

theorem closed_entry_removed_without_sweep:
  "userSocket st_closing = [0, 1, 2]
   \<and> readyState (heap st_closing ! 1) = CLOSING
   \<and> userId (heap st_closing ! 1) = Some id_u2
   \<and> userSocket (step (Close 1) st_closing) = [0, 2]
   \<and> userSocket (step (Connection url_u2 1) st_closing) = [0, 2, 3]"
  by code_simp

text \<open>
  C7. Removal of a registry entry by identity is idempotent. In every state the server
  reaches, running the \<^verbatim>\<open>close\<close> handler for a \<open>userId\<close> twice in succession gives the
  same state as running it once: the first run removes the entry of that \<open>userId\<close> (the
  registry loses at most one entry) and triggers at most one broadcast, the second finds
  nothing and triggers none. The same holds for the race with the heartbeat: when a
  heartbeat sweep has evicted an entry, the \<^verbatim>\<open>close\<close> event of its socket, delivered
  afterwards, removes nothing and triggers no broadcast.
\<close>

theorem removal_idempotent:
  assumes reach: "st = run es (init us)"
  shows "ws_on_close uid (ws_on_close uid st) = ws_on_close uid st
         \<and> userSocket (ws_on_close uid st) = filter (\<lambda>w. userId (heap st ! w) \<noteq> Some uid) (userSocket st)
         \<and> length (userSocket st) \<le> Suc (length (userSocket (ws_on_close uid (ws_on_close uid st))))
         \<and> length (pending (ws_on_close uid (ws_on_close uid st))) \<le> Suc (length (pending st))
         \<and> (ws \<in> set (userSocket st) \<and> ws \<notin> set (userSocket (heartbeat st)) \<longrightarrow>
               userSocket (step (Close ws) (heartbeat st)) = userSocket (heartbeat st)
               \<and> pending (step (Close ws) (heartbeat st)) = pending (heartbeat st))"
proof -
  have inv: "registry_inv st" unfolding reach by (rule inv_reachable)
  note tw = ws_on_close_twice [OF inv, of uid]
  from ws_on_close_filter [OF inv, of uid] ws_on_close_count [of st uid] close_after_eviction [OF inv, of ws]
  show ?thesis unfolding tw by blast
qed

theorem removal_idempotent_witness:
  "st_probed = run [Connection url_u1 0, Connection url_u2 0, QueryDone, QueryDone, Heartbeat] (init [])
   \<and> 0 \<in> set (userSocket st_probed) \<and> 0 \<notin> set (userSocket (heartbeat st_probed))
   \<and> ws_on_close id_u1 (ws_on_close id_u1 st_probed) = ws_on_close id_u1 st_probed
   \<and> userSocket (ws_on_close id_u1 st_probed) = [1]
   \<and> length (pending (ws_on_close id_u1 (ws_on_close id_u1 st_probed))) \<le> Suc (length (pending st_probed))
   \<and> userSocket (step (Close 0) (heartbeat st_probed)) = userSocket (heartbeat st_probed)
   \<and> pending (step (Close 0) (heartbeat st_probed)) = pending (heartbeat st_probed)"
proof -
  have r: "st_probed = run [Connection url_u1 0, Connection url_u2 0, QueryDone, QueryDone, Heartbeat] (init [])"
    by (simp add: st_probed_def)
  have h1: "0 \<in> set (userSocket st_probed)" by code_simp
  have h2: "0 \<notin> set (userSocket (heartbeat st_probed))" by code_simp
  have e: "filter (\<lambda>w. userId (heap st_probed ! w) \<noteq> Some id_u1) (userSocket st_probed) = [1]"
    by code_simp
  note t = removal_idempotent [OF r, of id_u1 0]
  from t have "userSocket (ws_on_close id_u1 st_probed)
      = filter (\<lambda>w. userId (heap st_probed ! w) \<noteq> Some id_u1) (userSocket st_probed)" by blast
  with e have u: "userSocket (ws_on_close id_u1 st_probed) = [1]" by (simp only:)
  from t r h1 h2 u show ?thesis by blast
qed

text \<open>
  C5, as amended. A \<^verbatim>\<open>send\<close> that raises ends the broadcast loop. In every state the
  server reaches, with the directory reachable, if the registry is \<open>before @ a # after\<close>,
  no transport of \<open>before\<close> raises and the transport of \<open>a\<close> does, then the broadcast sends
  the message to the recipients of \<open>before\<close> only: \<open>a\<close> and every recipient after it
  receive nothing from this broadcast. The error stays inside the broadcast, and no entry
  is removed from the registry.
\<close>

theorem send_failure_aborts_loop:
  assumes reach: "st = run es (init us)"
    and up: "dbUp st"
    and reg: "userSocket st = before @ a # after"
    and ok: "\<forall>r \<in> set before. \<not> sendRaises (heap st ! r)"
    and raises: "sendRaises (heap st ! a)"
  shows "(\<forall>r \<in> set before.
            sent (heap (broadcast_resume ids st) ! r) = sent (heap st ! r) @ [status_message ids (users st)])
         \<and> (\<forall>r \<in> set (a # after). sent (heap (broadcast_resume ids st) ! r) = sent (heap st ! r))
         \<and> userSocket (broadcast_resume ids st) = userSocket st"
proof -
  have inv: "registry_inv st" unfolding reach by (rule inv_reachable)
  have tw: "takeWhile (\<lambda>w. \<not> sendRaises (heap st ! w)) (userSocket st) = before"
    using ok raises by (simp add: reg takeWhile_append2)
  from registry_inv_distinct_refs [OF inv] have dis: "set before \<inter> set (a # after) = {}"
    by (auto simp: reg)
  note n = broadcast_resume_sent [OF inv up, of ids, unfolded tw]
  from dis show ?thesis by (auto simp: n)
qed

theorem send_failure_aborts_loop_witness:
  "st_faulty3 = run [Connection url_u1 0, Connection url_u2 0, SendFault 1 True, Connection url_u3 0,
                     QueryDone, QueryDone] (init dir_u1)
   \<and> dbUp st_faulty3
   \<and> userSocket st_faulty3 = [0] @ 1 # [2]
   \<and> \<not> sendRaises (heap st_faulty3 ! 0)
   \<and> sendRaises (heap st_faulty3 ! 1)
   \<and> sent (heap (broadcast_resume [id_u1, id_u2, id_u3] st_faulty3) ! 0)
       = sent (heap st_faulty3 ! 0) @ [status_message [id_u1, id_u2, id_u3] (users st_faulty3)]
   \<and> sent (heap (broadcast_resume [id_u1, id_u2, id_u3] st_faulty3) ! 1) = sent (heap st_faulty3 ! 1)
   \<and> sent (heap (broadcast_resume [id_u1, id_u2, id_u3] st_faulty3) ! 2) = sent (heap st_faulty3 ! 2)
   \<and> userSocket (broadcast_resume [id_u1, id_u2, id_u3] st_faulty3) = userSocket st_faulty3"
proof -
  let ?ids = "[id_u1, id_u2, id_u3]"
  have r: "st_faulty3 = run [Connection url_u1 0, Connection url_u2 0, SendFault 1 True, Connection url_u3 0,
                              QueryDone, QueryDone] (init dir_u1)"
    by (simp add: st_faulty3_def)
  have h1: "dbUp st_faulty3" by code_simp
  have h2: "userSocket st_faulty3 = [0] @ 1 # [2]" by code_simp
  have h3: "\<not> sendRaises (heap st_faulty3 ! 0)" by code_simp
  then have h3': "\<forall>r \<in> set [0]. \<not> sendRaises (heap st_faulty3 ! r)" by simp
  have h4: "sendRaises (heap st_faulty3 ! 1)" by code_simp
  note t = send_failure_aborts_loop [OF r h1 h2 h3' h4, of ?ids]
  from t have "\<forall>r \<in> set [0]. sent (heap (broadcast_resume ?ids st_faulty3) ! r)
                 = sent (heap st_faulty3 ! r) @ [status_message ?ids (users st_faulty3)]"
    by blast
  then have c0: "sent (heap (broadcast_resume ?ids st_faulty3) ! 0)
                 = sent (heap st_faulty3 ! 0) @ [status_message ?ids (users st_faulty3)]"
    by simp
  from t have "\<forall>r \<in> set (1 # [2]). sent (heap (broadcast_resume ?ids st_faulty3) ! r) = sent (heap st_faulty3 ! r)"
    by blast
  then have c1: "sent (heap (broadcast_resume ?ids st_faulty3) ! 1) = sent (heap st_faulty3 ! 1)"
    and c2: "sent (heap (broadcast_resume ?ids st_faulty3) ! 2) = sent (heap st_faulty3 ! 2)"
    by simp_all
  from t have c3: "userSocket (broadcast_resume ?ids st_faulty3) = userSocket st_faulty3" by blast
  from r h1 h2 h3 h4 c0 c1 c2 c3 show ?thesis by blast
qed

text \<open>
  C5, the claim as stated fails: with recipients A (socket 0) and B (socket 1) registered
  in that order and A's \<^verbatim>\<open>send\<close> raising, both suspended broadcasts run to completion and
  B, whose transport is open and does not raise, has received no message.
\<close>

theorem send_failure_starves_later_recipient:
  "userSocket st_faulty = [0, 1]
   \<and> pending st_faulty = [[id_u1], [id_u1, id_u2]]
   \<and> sendRaises (heap st_faulty ! 0)
   \<and> \<not> sendRaises (heap st_faulty ! 1)
   \<and> readyState (heap st_faulty ! 1) = OPEN
   \<and> sent (heap (run [QueryDone, QueryDone] st_faulty) ! 1) = []
   \<and> pending (run [QueryDone, QueryDone] st_faulty) = []"
  by code_simp

text \<open>
  C6, as amended. A connection whose request carries a missing or empty \<open>userId\<close> is
  silently ignored: the registry, the suspended broadcasts, the log of directory touches
  and the directory are unchanged and no handler is registered (the socket has no
  \<open>userId\<close>, and its later \<^verbatim>\<open>close\<close> event changes neither the registry nor the broadcasts);
  the transport is not closed: the socket stays open and \<^verbatim>\<open>terminate\<close> is not called on
  it.
\<close>

theorem rejected_connection_left_open:
  assumes falsy: "\<not> Boolean (url_userId url)"
    and st': "st' = wss_on_connection url now st"
  shows "userSocket st' = userSocket st \<and> pending st' = pending st \<and> touches st' = touches st
         \<and> users st' = users st \<and> dbUp st' = dbUp st
         \<and> heap st' = heap st @ [new_socket]
         \<and> userId (heap st' ! length (heap st)) = None
         \<and> readyState (heap st' ! length (heap st)) = OPEN
         \<and> terminations (heap st' ! length (heap st)) = 0
         \<and> userSocket (step (Close (length (heap st))) st') = userSocket st
         \<and> pending (step (Close (length (heap st))) st') = pending st"
  unfolding st' connection_reject [OF falsy] by (simp add: new_socket_def Let_def mod_socket_def)

theorem rejected_connection_left_open_witness:
  "\<not> Boolean (url_userId (Some ''/?userId=''))
   \<and> userSocket (wss_on_connection (Some ''/?userId='') 5 st_probed) = userSocket st_probed
   \<and> pending (wss_on_connection (Some ''/?userId='') 5 st_probed) = pending st_probed
   \<and> touches (wss_on_connection (Some ''/?userId='') 5 st_probed) = touches st_probed
   \<and> heap (wss_on_connection (Some ''/?userId='') 5 st_probed) = heap st_probed @ [new_socket]
   \<and> readyState (heap (wss_on_connection (Some ''/?userId='') 5 st_probed) ! length (heap st_probed)) = OPEN
   \<and> terminations (heap (wss_on_connection (Some ''/?userId='') 5 st_probed) ! length (heap st_probed)) = 0"
proof -
  have h: "\<not> Boolean (url_userId (Some ''/?userId=''))" by code_simp
  from rejected_connection_left_open [OF h refl, of 5 st_probed] h show ?thesis by blast
qed

text \<open>
  C6, the claim as stated fails: after a connection without URL the handler has returned
  and the new socket is open and not terminated.
\<close>

theorem rejected_connection_not_closed:
  "\<not> Boolean (url_userId None)
   \<and> userSocket (wss_on_connection None 0 (init [])) = []
   \<and> length (heap (wss_on_connection None 0 (init []))) = 1
   \<and> readyState (heap (wss_on_connection None 0 (init [])) ! 0) = OPEN
   \<and> terminations (heap (wss_on_connection None 0 (init [])) ! 0) = 0"
  by code_simp




text \<open>
  C9, as amended. A call of \<^verbatim>\<open>broadcastUserStatus\<close> records \<^verbatim>\<open>onlineUserIds\<close>, the
  identities registered at the call. When its directory query completes, with the
  directory reachable and no \<^verbatim>\<open>send\<close> raising, every socket registered then is sent
  exactly one message \<^verbatim>\<open>{ type: "user-status", users: [...] }\<close> and no other socket is
  touched. Each element of \<^verbatim>\<open>users\<close> has the fields \<^verbatim>\<open>_id\<close> and \<^verbatim>\<open>online\<close>, and \<^verbatim>\<open>username\<close>
  and \<^verbatim>\<open>email\<close> when the record defines them; \<^verbatim>\<open>online\<close> tells whether the record's
  \<^verbatim>\<open>_id\<close> is among the recorded identities.
\<close>

theorem broadcast_message:
  assumes reach: "st = run es (init us)"
    and up: "dbUp st"
    and queue: "pending st = ids # rest"
    and ok: "\<forall>r \<in> set (userSocket st). \<not> sendRaises (heap st ! r)"
    and called: "s0 = run es0 (init us0)"
  shows "(\<forall>r \<in> set (userSocket st).
            sent (heap (step QueryDone st) ! r)
              = sent (heap st ! r)
                @ [JObject [(''type'', JString ''user-status''),
                            (''users'',
                             JArray (map (\<lambda>u. JObject ([(''_id'', JString (u_id u))]
                                                        @ opt_field ''username'' (username u)
                                                        @ opt_field ''email'' (email u)
                                                        @ [(''online'', JBool (u_id u \<in> set ids))]))
                                         (users st)))]])
         \<and> (\<forall>r. r \<notin> set (userSocket st) \<longrightarrow> heap (step QueryDone st) ! r = heap st ! r)
         \<and> pending (step QueryDone st) = rest
         \<and> pending (broadcastUserStatus s0) = pending s0 @ [onlineUserIds s0]
         \<and> set (onlineUserIds s0) = {uid. \<exists>w \<in> set (userSocket s0). userId (heap s0 ! w) = Some uid}"
proof -
  have inv: "registry_inv st" unfolding reach by (rule inv_reachable)
  have inv0: "registry_inv s0" unfolding called by (rule inv_reachable)
  let ?q = "st\<lparr>pending := rest\<rparr>"
  have invq: "registry_inv ?q" using inv by (rule inv_upd_pending)
  have tw: "takeWhile (\<lambda>w. \<not> sendRaises (heap ?q ! w)) (userSocket ?q) = userSocket st"
    using ok by (simp add: takeWhile_eq_all_conv)
  have upq: "dbUp ?q" using up by simp
  note n = broadcast_resume_sent [OF invq upq, of ids, unfolded tw]
  have stepq: "step QueryDone st = broadcast_resume ids ?q" by (simp add: queue)
  have msg: "status_message ids (users ?q)
      = JObject [(''type'', JString ''user-status''),
                 (''users'',
                  JArray (map (\<lambda>u. JObject ([(''_id'', JString (u_id u))]
                                             @ opt_field ''username'' (username u)
                                             @ opt_field ''email'' (email u)
                                             @ [(''online'', JBool (u_id u \<in> set ids))]))
                              (users st)))]"
    by (simp add: status_message_def userWithStatus_def)
  have a: "\<forall>r \<in> set (userSocket st).
            sent (heap (step QueryDone st) ! r) = sent (heap st ! r) @ [status_message ids (users ?q)]"
    unfolding stepq by (simp add: n)
  have b: "\<forall>r. r \<notin> set (userSocket st) \<longrightarrow> heap (step QueryDone st) ! r = heap st ! r"
    unfolding stepq by (simp add: n)
  have c: "pending (step QueryDone st) = rest" unfolding stepq by simp
  from a [unfolded msg] b c onlineUserIds_set [OF inv0] show ?thesis by simp
qed

theorem broadcast_message_witness:
  "st_nameless = run [Connection url_u1 0] (init dir_nameless)
   \<and> dbUp st_nameless
   \<and> pending st_nameless = [id_u1] # []
   \<and> 0 \<in> set (userSocket st_nameless)
   \<and> \<not> sendRaises (heap st_nameless ! 0)
   \<and> sent (heap (step QueryDone st_nameless) ! 0)
        = sent (heap st_nameless ! 0)
          @ [JObject [(''type'', JString ''user-status''),
                      (''users'',
                       JArray (map (\<lambda>u. JObject ([(''_id'', JString (u_id u))]
                                                  @ opt_field ''username'' (username u)
                                                  @ opt_field ''email'' (email u)
                                                  @ [(''online'', JBool (u_id u \<in> set [id_u1]))]))
                                   (users st_nameless)))]]
   \<and> pending (step QueryDone st_nameless) = []
   \<and> pending (broadcastUserStatus st_nameless) = pending st_nameless @ [onlineUserIds st_nameless]"
proof -
  have r: "st_nameless = run [Connection url_u1 0] (init dir_nameless)" by (simp add: st_nameless_def)
  have h1: "dbUp st_nameless" by code_simp
  have h2: "pending st_nameless = [id_u1] # []" by code_simp
  have h3: "userSocket st_nameless = [0]" by code_simp
  have h4: "\<not> sendRaises (heap st_nameless ! 0)" by code_simp
  from h3 h4 have h5: "\<forall>r \<in> set (userSocket st_nameless). \<not> sendRaises (heap st_nameless ! r)" by simp
  from h3 have h6: "0 \<in> set (userSocket st_nameless)" by simp
  note t = broadcast_message [OF r h1 h2 h5 r]
  from t h6 r h1 h2 h4 show ?thesis by blast
qed

text \<open>
  C9, the claim as stated fails. One socket is registered and one broadcast is suspended
  on its query; the directory holds one record, without \<^verbatim>\<open>username\<close>. When the query
  completes, the element sent has the fields \<^verbatim>\<open>_id\<close>, \<^verbatim>\<open>email\<close> and \<^verbatim>\<open>online\<close>: there is no
  field \<^verbatim>\<open>id\<close> and no field \<^verbatim>\<open>username\<close>. When instead the query is rejected, or the
  transport's \<^verbatim>\<open>send\<close> raises, the broadcast ends and the registered socket has been sent
  no message.
\<close>

theorem broadcast_message_keys:
  "userSocket st_nameless = [0]
   \<and> pending st_nameless = [[id_u1]]
   \<and> users st_nameless = dir_nameless
   \<and> sent (heap st_nameless ! 0) = []
   \<and> sent (heap (step QueryDone st_nameless) ! 0)
        = [JObject [(''type'', JString ''user-status''),
                    (''users'', JArray [JObject [(''_id'', JString id_u1),
                                                 (''email'', JString ''ann@example.org''),
                                                 (''online'', JBool True)]])]]
   \<and> userSocket (run [DbState False, QueryDone] st_nameless) = [0]
   \<and> pending (run [DbState False, QueryDone] st_nameless) = []
   \<and> sent (heap (run [DbState False, QueryDone] st_nameless) ! 0) = []
   \<and> userSocket (run [SendFault 0 True, QueryDone] st_nameless) = [0]
   \<and> pending (run [SendFault 0 True, QueryDone] st_nameless) = []
   \<and> sent (heap (run [SendFault 0 True, QueryDone] st_nameless) ! 0) = []"
  by code_simp

end
